theory Spec2Isabelle
  imports Complex_Main
begin

section \<open>Mutators of agent programs (biomakerca/mutators.py)\<close>

text \<open>
  The module works on arrays of 32-bit floats and on the splittable random keys of
  the numeric runtime. An array is its shape together with its elements in row-major
  order, and the random primitives are a parameter of every stochastic function.

  The values a caller supplies (parameter vectors, configuration constants) and the
  random draws are finite floats, here real numbers. What the mutators compute from
  them by multiplication and addition is a value of type \<open>f32\<close>: a finite number,
  an infinity or NaN, with overflow beyond the largest float and flush to zero below
  the smallest one. Rounding inside that range is not modelled. The noise generator
  and the recombination of two parents stay in real numbers: their values are
  combinations of numbers in \<open>[-1, 1]\<close>, or one parent's element plus zero.
\<close>

subsection \<open>Errors\<close>

datatype error =
    IndexError              \<comment> \<open>\<open>shape[-1]\<close> of a 0-d array, \<open>[..., i]\<close> out of range\<close>
  | ReshapeSizeMismatch     \<comment> \<open>\<open>reshape\<close> to a shape of another size\<close>
  | SplitNotDivisible       \<comment> \<open>\<open>jp.split\<close> into sections that do not divide the axis\<close>
  | UnpackError             \<comment> \<open>tuple unpacking of a sequence of the wrong length\<close>
  | IncompatibleShapes      \<comment> \<open>operands that neither agree nor broadcast\<close>
  | ZeroDivisionError       \<comment> \<open>\<open>n/(f-1)\<close> with \<open>f = 1\<close>\<close>
  | NegativeDimension       \<comment> \<open>a negative repeat count\<close>

subsection \<open>Arrays\<close>

record 'a ndarray =
  shape :: "nat list"
  data :: "'a list"

definition wf_array :: "'a ndarray \<Rightarrow> bool" where
  "wf_array a = (length (data a) = prod_list (shape a))"

definition vec :: "'a list \<Rightarrow> 'a ndarray" where
  \<comment> \<open>a one-dimensional array\<close>
  "vec xs = \<lparr>shape = [length xs], data = xs\<rparr>"

definition reshape :: "'a ndarray \<Rightarrow> nat list \<Rightarrow> error + 'a ndarray" where
  "reshape a s =
     (if prod_list s = length (data a) then Inr \<lparr>shape = s, data = data a\<rparr>
      else Inl ReshapeSizeMismatch)"

function rows :: "nat \<Rightarrow> 'a list \<Rightarrow> 'a list list" where
  \<comment> \<open>the row-major elements cut into the vectors of a trailing axis of size \<open>m\<close>\<close>
  "rows m xs =
     (if m = 0 \<or> length xs < m then [] else take m xs # rows m (drop m xs))"
  by pat_completeness auto
termination
  by (relation "measure (\<lambda>(m, xs). length xs)") auto

declare rows.simps [simp del]

definition split_last :: "'a ndarray \<Rightarrow> nat \<Rightarrow> error + 'a ndarray list" where
  \<comment> \<open>\<open>jp.split(a, k, axis=-1)\<close>: \<open>k\<close> equal sections of the trailing axis\<close>
  "split_last a k =
     (case shape a of
        [] \<Rightarrow> Inl IndexError
      | _ \<Rightarrow>
          (let m = last (shape a) in
           if k = 0 \<or> m mod k \<noteq> 0 then Inl SplitNotDivisible
           else Inr (map (\<lambda>j. \<lparr>shape = butlast (shape a) @ [m div k],
                                data = concat (map (\<lambda>row. take (m div k) (drop (j * (m div k)) row))
                                                   (rows m (data a)))\<rparr>)
                         [0..<k])))"

definition index_last :: "'a ndarray \<Rightarrow> nat \<Rightarrow> error + 'a ndarray" where
  \<comment> \<open>\<open>a[..., i]\<close>\<close>
  "index_last a i =
     (case shape a of
        [] \<Rightarrow> Inl IndexError
      | _ \<Rightarrow>
          (if last (shape a) \<le> i then Inl IndexError
           else Inr \<lparr>shape = butlast (shape a),
                     data = map (\<lambda>row. row ! i) (rows (last (shape a)) (data a))\<rparr>))"

subsection \<open>Floating-point values\<close>

datatype f32 = Fin real | PInf | NInf | NaN

record fmt =
  fmax :: real     \<comment> \<open>the largest finite value\<close>
  ftiny :: real    \<comment> \<open>the smallest positive value that is not flushed to zero\<close>

definition fmt_ok :: "fmt \<Rightarrow> bool" where
  "fmt_ok F = (0 < ftiny F \<and> ftiny F \<le> fmax F)"

definition float32 :: fmt where
  \<comment> \<open>\<open>(2 - 2^-23) * 2^127\<close> and \<open>2^-126\<close>, subnormal results being flushed\<close>
  "float32 = \<lparr>fmax = 340282346638528859811704183484516925440, ftiny = 1 / 2 ^ 126\<rparr>"

definition in_range :: "fmt \<Rightarrow> real \<Rightarrow> bool" where
  \<comment> \<open>a real number that is a finite value of the format (up to rounding)\<close>
  "in_range F x = (\<bar>x\<bar> \<le> fmax F \<and> (x = 0 \<or> ftiny F \<le> \<bar>x\<bar>))"

definition fl :: "fmt \<Rightarrow> real \<Rightarrow> f32" where
  \<comment> \<open>the float that an exact result becomes\<close>
  "fl F x =
     (if fmax F < x then PInf
      else if x < - fmax F then NInf
      else if \<bar>x\<bar> < ftiny F then Fin 0
      else Fin x)"

fun is_fin :: "f32 \<Rightarrow> bool" where
  "is_fin (Fin x) = True"
| "is_fin v = False"

fun fmul :: "fmt \<Rightarrow> f32 \<Rightarrow> f32 \<Rightarrow> f32" where
  "fmul F NaN y = NaN"
| "fmul F x NaN = NaN"
| "fmul F (Fin a) (Fin b) = fl F (a * b)"
| "fmul F (Fin a) PInf = (if a = 0 then NaN else if 0 < a then PInf else NInf)"
| "fmul F (Fin a) NInf = (if a = 0 then NaN else if 0 < a then NInf else PInf)"
| "fmul F PInf (Fin b) = (if b = 0 then NaN else if 0 < b then PInf else NInf)"
| "fmul F NInf (Fin b) = (if b = 0 then NaN else if 0 < b then NInf else PInf)"
| "fmul F PInf PInf = PInf"
| "fmul F PInf NInf = NInf"
| "fmul F NInf PInf = NInf"
| "fmul F NInf NInf = PInf"

fun fadd :: "fmt \<Rightarrow> f32 \<Rightarrow> f32 \<Rightarrow> f32" where
  "fadd F NaN y = NaN"
| "fadd F x NaN = NaN"
| "fadd F (Fin a) (Fin b) = fl F (a + b)"
| "fadd F (Fin a) PInf = PInf"
| "fadd F (Fin a) NInf = NInf"
| "fadd F PInf (Fin b) = PInf"
| "fadd F NInf (Fin b) = NInf"
| "fadd F PInf PInf = PInf"
| "fadd F PInf NInf = NaN"
| "fadd F NInf PInf = NaN"
| "fadd F NInf NInf = NInf"

fun clip :: "real \<Rightarrow> real \<Rightarrow> f32 \<Rightarrow> f32" where
  \<comment> \<open>\<open>x.clip(lo, hi)\<close>: the minimum with \<open>hi\<close> of the maximum with \<open>lo\<close>; both
      propagate NaN\<close>
  "clip lo hi NaN = NaN"
| "clip lo hi (Fin x) = Fin (min (max x lo) hi)"
| "clip lo hi PInf = Fin hi"
| "clip lo hi NInf = Fin (min lo hi)"

subsection \<open>The random primitives\<close>

text \<open>
  \<open>jax.random\<close> is not part of the module: its functions are fields of a record that
  every stochastic function takes. A draw of shape \<open>(n,)\<close> has \<open>n\<close> elements by
  construction; \<open>uniform_at R k n lo hi i\<close> is element \<open>i\<close> of
  \<open>jr.uniform(k, (n,), minval=lo, maxval=hi)\<close>, and likewise for the other two.
\<close>

record 'k rng =
  split :: "'k \<Rightarrow> 'k \<times> 'k"
  uniform_at :: "'k \<Rightarrow> nat \<Rightarrow> real \<Rightarrow> real \<Rightarrow> nat \<Rightarrow> real"
  normal_at :: "'k \<Rightarrow> nat \<Rightarrow> nat \<Rightarrow> real"
  truncated_normal_at :: "'k \<Rightarrow> real \<Rightarrow> real \<Rightarrow> nat \<Rightarrow> nat \<Rightarrow> real"

definition uniform :: "'k rng \<Rightarrow> 'k \<Rightarrow> nat \<Rightarrow> real \<Rightarrow> real \<Rightarrow> real list" where
  "uniform R k n lo hi = map (uniform_at R k n lo hi) [0..<n]"

definition normal :: "'k rng \<Rightarrow> 'k \<Rightarrow> nat \<Rightarrow> real list" where
  "normal R k n = map (normal_at R k n) [0..<n]"

definition truncated_normal :: "'k rng \<Rightarrow> 'k \<Rightarrow> real \<Rightarrow> real \<Rightarrow> nat \<Rightarrow> real list" where
  "truncated_normal R k lo hi n = map (truncated_normal_at R k lo hi n) [0..<n]"

definition rng_ok :: "'k rng \<Rightarrow> bool" where
  \<comment> \<open>the documented ranges: uniform in \<open>[minval, maxval)\<close>, truncated normal in
      \<open>[lower, upper]\<close>\<close>
  "rng_ok R =
     (\<forall>k n lo hi i. lo < hi \<longrightarrow>
        (lo \<le> uniform_at R k n lo hi i \<and> uniform_at R k n lo hi i < hi) \<and>
        (lo \<le> truncated_normal_at R k lo hi n i \<and> truncated_normal_at R k lo hi n i \<le> hi))"

subsection \<open>BasicMutator\<close>

record basic_mutator =
  bm_sd :: real
  bm_change_perc :: real

definition basic_initialize :: "basic_mutator \<Rightarrow> 'k \<Rightarrow> real list \<Rightarrow> real list" where
  "basic_initialize m key p = p"

definition basic_split_params :: "basic_mutator \<Rightarrow> real ndarray \<Rightarrow> real ndarray \<times> real ndarray" where
  "basic_split_params m p = (p, vec [])"

definition basic_mutate ::
  "fmt \<Rightarrow> basic_mutator \<Rightarrow> 'k rng \<Rightarrow> 'k \<Rightarrow> real list \<Rightarrow> f32 list" where
  "basic_mutate F m R key p =
     (let (k1, k2) = split R key;
          dp = map2 (\<lambda>z u. fmul F (fmul F (Fin z) (Fin (bm_sd m)))
                               (Fin (if u < bm_change_perc m then 1 else 0)))
                 (normal R k1 (length p)) (uniform R k2 (length p) 0 1)
      in map2 (\<lambda>x d. fadd F (Fin x) d) p dp)"

subsection \<open>RandomlyAdaptiveMutator\<close>

record adaptive_mutator =
  init_sd :: real
  change_perc :: "real option"
  meta_sd_perc :: real
  min_sd :: real
  max_sd :: real

definition join_params :: "'a list \<Rightarrow> 'a list \<Rightarrow> error + 'a list" where
  \<comment> \<open>\<open>jp.ravel(jp.column_stack((p, sd)))\<close> of two one-dimensional arrays\<close>
  "join_params p sd =
     (if length p = length sd then Inr (concat (map2 (\<lambda>x s. [x, s]) p sd))
      else Inl IncompatibleShapes)"

definition initialize :: "adaptive_mutator \<Rightarrow> 'k \<Rightarrow> real list \<Rightarrow> error + real list" where
  "initialize m key p =
     (let sd = replicate (length p) (init_sd m) in join_params p sd)"

definition split_params :: "'a ndarray \<Rightarrow> error + ('a ndarray \<times> 'a ndarray)" where
  "split_params p =
     (case shape p of
        [] \<Rightarrow> Inl IndexError
      | _ \<Rightarrow>
          (case reshape p (butlast (shape p) @ [last (shape p) div 2, 2]) of
             Inl e \<Rightarrow> Inl e
           | Inr q \<Rightarrow>
               (case split_last q 2 of
                  Inl e \<Rightarrow> Inl e
                | Inr [p_e, sd_e] \<Rightarrow>
                    (case index_last p_e 0 of
                       Inl e \<Rightarrow> Inl e
                     | Inr a \<Rightarrow>
                         (case index_last sd_e 0 of
                            Inl e \<Rightarrow> Inl e
                          | Inr b \<Rightarrow> Inr (a, b)))
                | Inr _ \<Rightarrow> Inl UnpackError)))"

definition mutation_deltas ::
  "fmt \<Rightarrow> adaptive_mutator \<Rightarrow> 'k rng \<Rightarrow> 'k \<Rightarrow> real list \<Rightarrow> f32 list \<times> f32 list" where
  \<comment> \<open>lines 149-160 of \<open>mutate\<close>: \<open>(dmu, dsd)\<close> as they stand before line 162\<close>
  "mutation_deltas F m R key sd =
     (let n = length sd;
          (ku1, key1) = split R key;
          dmu = map2 (\<lambda>z s. fmul F (Fin z) (Fin s)) (truncated_normal R ku1 (-3) 3 n) sd;
          (ku2, key2) = split R key1;
          dsd = map2 (\<lambda>z s. fmul F (fmul F (Fin z) (Fin s)) (Fin (meta_sd_perc m)))
                  (truncated_normal R ku2 (-3) 3 n) sd
      in case change_perc m of
           None \<Rightarrow> (dmu, dsd)
         | Some c \<Rightarrow>
             (let (ku3, key3) = split R key2;
                  mask = map (\<lambda>u. if u < c then 1 else 0) (uniform R ku3 n 0 1)
              in (map2 (\<lambda>d k. fmul F d (Fin k)) dmu mask,
                  map2 (\<lambda>d k. fmul F d (Fin k)) dsd mask)))"

definition mutate ::
  "fmt \<Rightarrow> adaptive_mutator \<Rightarrow> 'k rng \<Rightarrow> 'k \<Rightarrow> real list \<Rightarrow> error + f32 list" where
  "mutate F m R key p =
     (case split_params (vec p) of
        Inl e \<Rightarrow> Inl e
      | Inr (mu_a, sd_a) \<Rightarrow>
          (let mu = data mu_a; sd = data sd_a;
               (dmu, dsd) = mutation_deltas F m R key sd;
               new_mu = map2 (\<lambda>x d. fadd F (Fin x) d) mu dmu;
               new_sd = map (clip (min_sd m) (max_sd m))
                          (map2 (\<lambda>s d. fadd F (Fin s) d) sd dsd)
           in join_params new_mu new_sd))"

subsection \<open>Asexual mutators as one type\<close>

datatype mutator = BasicMutator basic_mutator | RandomlyAdaptiveMutator adaptive_mutator

fun mutator_initialize :: "mutator \<Rightarrow> 'k \<Rightarrow> real list \<Rightarrow> error + real list" where
  "mutator_initialize (BasicMutator b) key p = Inr (basic_initialize b key p)"
| "mutator_initialize (RandomlyAdaptiveMutator a) key p = initialize a key p"

fun mutator_split_params :: "mutator \<Rightarrow> real ndarray \<Rightarrow> error + (real ndarray \<times> real ndarray)" where
  "mutator_split_params (BasicMutator b) p = Inr (basic_split_params b p)"
| "mutator_split_params (RandomlyAdaptiveMutator a) p = split_params p"

fun mutator_mutate ::
  "fmt \<Rightarrow> mutator \<Rightarrow> 'k rng \<Rightarrow> 'k \<Rightarrow> real list \<Rightarrow> error + f32 list" where
  "mutator_mutate F (BasicMutator b) R key p = Inr (basic_mutate F b R key p)"
| "mutator_mutate F (RandomlyAdaptiveMutator a) R key p = mutate F a R key p"

subsection \<open>Value noise\<close>

definition linspace :: "real \<Rightarrow> real \<Rightarrow> nat \<Rightarrow> real list" where
  \<comment> \<open>\<open>jp.linspace(a, b, num)\<close>, both ends included\<close>
  "linspace a b num =
     (if num = 1 then [a]
      else map (\<lambda>i. a + real i * ((b - a) / real (num - 1))) [0..<num])"

definition repeat :: "'a list \<Rightarrow> nat \<Rightarrow> 'a list" where
  \<comment> \<open>\<open>jp.repeat(xs, r, axis=0)\<close>: every element \<open>r\<close> times in a row\<close>
  "repeat xs r = concat (map (replicate r) xs)"

definition tile :: "'a list \<Rightarrow> nat \<Rightarrow> 'a list" where
  \<comment> \<open>\<open>jp.tile(xs, k)\<close>: the whole vector \<open>k\<close> times\<close>
  "tile xs k = concat (replicate k xs)"

definition smoothstep :: "real \<Rightarrow> real" where
  "smoothstep t = t * t * t * (t * (t * 6 - 15) + 10)"

definition valuenoise1d :: "'k rng \<Rightarrow> 'k \<Rightarrow> nat \<Rightarrow> nat \<Rightarrow> string \<Rightarrow> error + real list" where
  \<comment> \<open>\<open>f = 1\<close> divides by zero; \<open>f = 0\<close> gives the repeat count \<open>-n\<close> and the tile
      count \<open>-1\<close>, which the array library rejects. The quotient \<open>n/(f-1)\<close> is exact
      here (it is a 64-bit float in the source).\<close>
  "valuenoise1d R key f n interpolation =
     (let (ku, key') = split R key;
          grads = uniform R ku f (-1) 1
      in if f = 1 then Inl ZeroDivisionError
         else if f = 0 then Inl NegativeDimension
         else
           (let n_repeats = nat \<lceil>real n / real (f - 1)\<rceil>;
                prev = take n (repeat (butlast grads) n_repeats);
                next = take n (repeat (tl grads) n_repeats);
                t = take n (tile (butlast (linspace 0 1 (n_repeats + 1))) (f - 1));
                t' = (if interpolation = ''cubic'' then map smoothstep t else t)
            in Inr (map2 (+) prev (map2 (*) t' (map2 (-) next prev)))))"

subsection \<open>CrossOverSexualMutator\<close>

record crossover_mutator =
  mutator :: mutator
  n_frequencies :: nat

definition broadcast2 :: "(real \<Rightarrow> real \<Rightarrow> real) \<Rightarrow> real list \<Rightarrow> real list \<Rightarrow> error + real list" where
  \<comment> \<open>an element-wise operation on two one-dimensional arrays: equal lengths, or
      one of them of length 1\<close>
  "broadcast2 f xs ys =
     (if length xs = length ys then Inr (map2 f xs ys)
      else if length xs = 1 then Inr (map (f (hd xs)) ys)
      else if length ys = 1 then Inr (map (\<lambda>x. f x (hd ys)) xs)
      else Inl IncompatibleShapes)"

definition recombine :: "bool list \<Rightarrow> real list \<Rightarrow> real list \<Rightarrow> error + real list" where
  \<comment> \<open>line 238: \<open>xo_mask * p1 + (1. - xo_mask) * p2\<close>, a true mask element counting as 1\<close>
  "recombine xo_mask p1 p2 =
     (case broadcast2 (*) (map of_bool xo_mask) p1 of
        Inl e \<Rightarrow> Inl e
      | Inr a \<Rightarrow>
          (case broadcast2 (*) (map (\<lambda>b. 1 - of_bool b) xo_mask) p2 of
             Inl e \<Rightarrow> Inl e
           | Inr b \<Rightarrow> broadcast2 (+) a b))"

definition crossover_mutate ::
  "fmt \<Rightarrow> crossover_mutator \<Rightarrow> 'k rng \<Rightarrow> 'k \<Rightarrow> real list \<Rightarrow> real list
     \<Rightarrow> error + f32 list" where
  "crossover_mutate F m R key p1 p2 =
     (let (ku, key1) = split R key in
      case valuenoise1d R ku (n_frequencies m) (length p1) ''linear'' of
        Inl e \<Rightarrow> Inl e
      | Inr noise \<Rightarrow>
          (let xo_mask = map (\<lambda>v. 0 < v) noise in
           case recombine xo_mask p1 p2 of
             Inl e \<Rightarrow> Inl e
           | Inr new_p \<Rightarrow>
               (let (ku2, key2) = split R key1
                in mutator_mutate F (mutator m) R ku2 new_p)))"

subsection \<open>Concrete instances\<close>

definition adaptive_mutator_init :: "real \<Rightarrow> real option \<Rightarrow> adaptive_mutator" where
  \<comment> \<open>\<open>RandomlyAdaptiveMutator(init_sd, change_perc)\<close> with the constructor's defaults\<close>
  "adaptive_mutator_init s c =
     \<lparr>init_sd = s, change_perc = c, meta_sd_perc = 1 / 10, min_sd = 1 / 100000, max_sd = 10\<rparr>"

definition test_rng :: "nat rng" where
  \<comment> \<open>a deterministic generator within the documented ranges, for concrete runs\<close>
  "test_rng =
     \<lparr>split = (\<lambda>k. (2 * k + 1, 2 * k + 2)),
      uniform_at = (\<lambda>k n lo hi i. lo + (hi - lo) * real ((k + i) mod 4) / 4),
      normal_at = (\<lambda>k n i. real ((k + i) mod 5) - 2),
      truncated_normal_at = (\<lambda>k lo hi n i. lo + (hi - lo) * real ((k + i) mod 7) / 6)\<rparr>"


section \<open>Properties\<close>

subsection \<open>Rows of a row-major array\<close>

lemma case_nonempty: "s \<noteq> [] \<Longrightarrow> (case s of [] \<Rightarrow> A | x # xs \<Rightarrow> B) = B"
  by (cases s) simp_all

lemma rows_Nil: "rows m [] = []"
  by (subst rows.simps) auto

lemma rows_append: "0 < m \<Longrightarrow> length r = m \<Longrightarrow> rows m (r @ xs) = r # rows m xs"
  by (subst rows.simps) simp

lemma rows_concat:
  "0 < m \<Longrightarrow> (\<And>y. y \<in> set ys \<Longrightarrow> length y = m) \<Longrightarrow> rows m (concat ys) = ys"
  by (induction ys) (simp_all add: rows_Nil rows_append)

lemma rows_singletons: "rows (Suc 0) xs = map (\<lambda>x. [x]) xs"
proof -
  have "rows (Suc 0) (concat (map (\<lambda>x. [x]) xs)) = map (\<lambda>x. [x]) xs"
    by (rule rows_concat) auto
  moreover have "concat (map (\<lambda>x. [x]) xs) = xs"
    by (induction xs) simp_all
  ultimately show ?thesis by simp
qed

lemma rows_pairs:
  "length p = length sd \<Longrightarrow>
   rows 2 (concat (map2 (\<lambda>x s. [x, s]) p sd)) = map2 (\<lambda>x s. [x, s]) p sd"
  by (rule rows_concat) (auto simp: set_zip)

lemma concat_fst_pairs:
  "length p = length sd \<Longrightarrow>
   concat (map (take (Suc 0) \<circ> (\<lambda>(x, s). [x, s])) (zip p sd)) = p"
  by (induction p sd rule: list_induct2) simp_all

lemma concat_snd_pairs:
  "length p = length sd \<Longrightarrow>
   concat (map ((\<lambda>row. take (Suc 0) (drop (Suc 0) row)) \<circ> (\<lambda>(x, s). [x, s])) (zip p sd)) = sd"
  by (induction p sd rule: list_induct2) simp_all

lemma length_pairs:
  "length p = length sd \<Longrightarrow> length (concat (map2 (\<lambda>x s. [x, s]) p sd)) = 2 * length p"
  by (induction p sd rule: list_induct2) simp_all

subsection \<open>De-interleaving\<close>

lemma split_params_pairs:
  assumes len: "length p = length sd"
    and sh: "shape a = lead @ [n]"
    and dat: "data a = concat (map2 (\<lambda>x s. [x, s]) p sd)"
    and sz: "prod_list lead * (n div 2) = length p"
  shows "split_params a =
           Inr (\<lparr>shape = lead @ [n div 2], data = p\<rparr>, \<lparr>shape = lead @ [n div 2], data = sd\<rparr>)"
proof -
  let ?q = "\<lparr>shape = lead @ [n div 2, 2], data = data a\<rparr>"
  have r: "reshape a (lead @ [n div 2, 2]) = Inr ?q"
    using sz len by (simp add: reshape_def dat length_pairs)
  have s: "split_last ?q 2 =
             Inr [\<lparr>shape = lead @ [n div 2, 1], data = p\<rparr>,
                  \<lparr>shape = lead @ [n div 2, 1], data = sd\<rparr>]"
  proof -
    have u: "[0..<2] = [0, Suc 0]"
      by (simp add: upt_rec numeral_2_eq_2)
    have b: "butlast (lead @ [n div 2, 2]) = lead @ [n div 2]"
      by (simp add: butlast_append)
    show ?thesis
      using len
      by (simp add: split_last_def case_nonempty Let_def u b dat rows_pairs
          concat_fst_pairs concat_snd_pairs)
  qed
  have i: "index_last \<lparr>shape = lead @ [n div 2, Suc 0], data = xs\<rparr> 0 =
             Inr \<lparr>shape = lead @ [n div 2], data = xs\<rparr>" for xs :: "'a list"
    by (simp add: index_last_def case_nonempty butlast_append rows_singletons comp_def)
  show ?thesis
    unfolding split_params_def
    by (simp add: r s i sh case_nonempty)
qed

lemma split_params_join:
  "length p = length sd \<Longrightarrow> join_params p sd = Inr q \<Longrightarrow>
   split_params (vec q) = Inr (vec p, vec sd)"
proof -
  assume len: "length p = length sd" and j: "join_params p sd = Inr q"
  from j len have q: "q = concat (map2 (\<lambda>x s. [x, s]) p sd)"
    by (simp add: join_params_def)
  have "split_params (vec q) =
          Inr (\<lparr>shape = [] @ [length q div 2], data = p\<rparr>,
               \<lparr>shape = [] @ [length q div 2], data = sd\<rparr>)"
    by (rule split_params_pairs [OF len]) (simp_all add: vec_def q length_pairs len)
  then show ?thesis
    using len by (simp add: vec_def q length_pairs)
qed

lemma nth_pairs:
  "length p = length sd \<Longrightarrow> i < length p \<Longrightarrow>
   concat (map2 (\<lambda>x s. [x, s]) p sd) ! (2 * i) = p ! i \<and>
   concat (map2 (\<lambda>x s. [x, s]) p sd) ! (2 * i + 1) = sd ! i"
proof (induction p sd arbitrary: i rule: list_induct2)
  case Nil
  then show ?case by simp
next
  case (Cons x xs y ys)
  show ?case
  proof (cases i)
    case 0
    then show ?thesis by simp
  next
    case (Suc j)
    with Cons.prems have "j < length xs" by simp
    from Cons.IH [OF this] show ?thesis by (simp add: Suc)
  qed
qed

lemma interleave_nth:
  assumes ev: "even (length xs)"
  shows "concat (map2 (\<lambda>x s. [x, s])
                   (map (\<lambda>i. xs ! (2 * i)) [0..<length xs div 2])
                   (map (\<lambda>i. xs ! (2 * i + 1)) [0..<length xs div 2])) = xs"
    (is "?ys = xs")
proof (rule nth_equalityI)
  show len: "length ?ys = length xs"
    using ev by (simp add: length_pairs)
  fix k
  assume "k < length ?ys"
  with len have k: "k < length xs" by metis
  from k ev have h: "k div 2 < length xs div 2"
    by (elim evenE) simp
  have n: "?ys ! (2 * (k div 2)) = xs ! (2 * (k div 2)) \<and>
           ?ys ! (2 * (k div 2) + 1) = xs ! (2 * (k div 2) + 1)"
    using nth_pairs [of "map (\<lambda>i. xs ! (2 * i)) [0..<length xs div 2]"
        "map (\<lambda>i. xs ! (2 * i + 1)) [0..<length xs div 2]" "k div 2"] h
    by simp
  show "?ys ! k = xs ! k"
  proof (cases "even k")
    case True
    then have "2 * (k div 2) = k" by simp
    with n show ?thesis by simp
  next
    case False
    then have "2 * (k div 2) + 1 = k" by (simp add: odd_two_times_div_two_succ)
    with n show ?thesis by simp
  qed
qed

subsection \<open>Round trip and representation\<close>

lemma initialize_eq:
  "initialize m key p = Inr (concat (map2 (\<lambda>x s. [x, s]) p (replicate (length p) (init_sd m))))"
  by (simp add: initialize_def join_params_def)

lemma split_params_initialize:
  "initialize m key p = Inr q \<Longrightarrow>
   split_params (vec q) = Inr (vec p, vec (replicate (length p) (init_sd m)))"
  by (rule split_params_join [of p "replicate (length p) (init_sd m)"])
    (simp_all add: initialize_def)

text \<open>
  C1. For both strategies, for every key and every one-dimensional model vector \<open>p\<close>,
  \<open>initialize\<close> succeeds and \<open>split_params\<close> of its result has \<open>p\<close> itself as
  model component; the second component is empty for BasicMutator and is \<open>init_sd\<close> at
  each of the \<open>length p\<close> positions for RandomlyAdaptiveMutator.
\<close>

theorem split_params_initialize_roundtrip:
  "\<exists>q. mutator_initialize m key p = Inr q \<and>
       mutator_split_params m (vec q) =
         Inr (vec p,
              (case m of
                 BasicMutator b \<Rightarrow> vec []
               | RandomlyAdaptiveMutator a \<Rightarrow> vec (replicate (length p) (init_sd a))))"
proof (cases m)
  case (BasicMutator b)
  then show ?thesis
    by (simp add: basic_initialize_def basic_split_params_def)
next
  case (RandomlyAdaptiveMutator a)
  obtain q where q: "initialize a key p = Inr q"
    using initialize_eq [of a key p] by blast
  from split_params_initialize [OF q] q show ?thesis
    by (simp add: RandomlyAdaptiveMutator)
qed

theorem split_params_initialize_roundtrip_witness:
  "mutator_initialize (RandomlyAdaptiveMutator (adaptive_mutator_init (1 / 10) None)) (0::nat) [5]
     = Inr [5, 1 / 10] \<and>
   mutator_split_params (RandomlyAdaptiveMutator (adaptive_mutator_init (1 / 10) None))
       (vec [5, 1 / 10])
     = Inr (vec [5], vec [1 / 10])"
  using split_params_initialize_roundtrip
    [of "RandomlyAdaptiveMutator (adaptive_mutator_init (1 / 10) None)" "0::nat" "[5]"]
  by (simp add: initialize_def join_params_def adaptive_mutator_init_def)

lemma split_params_even:
  assumes wf: "wf_array a" and sh: "shape a = lead @ [n]" and ev: "even n"
  shows "split_params a =
           Inr (\<lparr>shape = lead @ [n div 2],
                 data = map (\<lambda>i. data a ! (2 * i)) [0..<length (data a) div 2]\<rparr>,
                \<lparr>shape = lead @ [n div 2],
                 data = map (\<lambda>i. data a ! (2 * i + 1)) [0..<length (data a) div 2]\<rparr>)"
proof -
  have len: "length (data a) = prod_list lead * n"
    using wf by (simp add: wf_array_def sh)
  with ev have evl: "even (length (data a))" by simp
  from ev have "n = 2 * (n div 2)" by simp
  with len have half: "length (data a) div 2 = prod_list lead * (n div 2)"
    by (metis mult.left_commute nonzero_mult_div_cancel_left zero_neq_numeral)
  show ?thesis
  proof (rule split_params_pairs [OF _ sh])
    show "data a =
            concat (map2 (\<lambda>x s. [x, s])
                      (map (\<lambda>i. data a ! (2 * i)) [0..<length (data a) div 2])
                      (map (\<lambda>i. data a ! (2 * i + 1)) [0..<length (data a) div 2]))"
      by (rule interleave_nth [OF evl, symmetric])
  qed (simp_all add: half)
qed

text \<open>
  C4. \<open>initialize\<close> on a model vector of length \<open>L\<close> returns the \<open>2L\<close> values
  \<open>[p0, sd0, p1, sd1, ...]\<close>: position \<open>2i\<close> holds \<open>p ! i\<close> and position \<open>2i + 1\<close>
  holds the std-dev, and \<open>split_params\<close> gives back the two vectors of length \<open>L\<close>.
  On any array whose trailing axis has even size \<open>n\<close>, \<open>split_params\<close> keeps the
  leading dimensions, halves the trailing one, and puts the elements of even row-major
  index in the first result and those of odd index in the second: element \<open>(b, j)\<close> of
  a result, at index \<open>b * (n div 2) + j\<close>, is element \<open>(b, 2j)\<close> or \<open>(b, 2j + 1)\<close> of
  the argument, at index \<open>b * n + 2j\<close> or \<open>b * n + 2j + 1\<close>.
\<close>

theorem interleaved_representation:
  "(\<exists>q. initialize m key p = Inr q \<and> length q = 2 * length p \<and>
        (\<forall>i < length p. q ! (2 * i) = p ! i \<and> q ! (2 * i + 1) = init_sd m) \<and>
        split_params (vec q) = Inr (vec p, vec (replicate (length p) (init_sd m)))) \<and>
   (\<forall>(a :: 'a ndarray) lead n.
      wf_array a \<and> shape a = lead @ [n] \<and> even n \<longrightarrow>
        split_params a =
          Inr (\<lparr>shape = lead @ [n div 2],
                data = map (\<lambda>i. data a ! (2 * i)) [0..<length (data a) div 2]\<rparr>,
               \<lparr>shape = lead @ [n div 2],
                data = map (\<lambda>i. data a ! (2 * i + 1)) [0..<length (data a) div 2]\<rparr>))"
proof (intro conjI exI allI impI)
  let ?sd = "replicate (length p) (init_sd m)"
  let ?q = "concat (map2 (\<lambda>x s. [x, s]) p ?sd)"
  show i: "initialize m key p = Inr ?q"
    by (rule initialize_eq)
  show "length ?q = 2 * length p"
    by (simp add: length_pairs)
  show "split_params (vec ?q) = Inr (vec p, vec ?sd)"
    by (rule split_params_initialize [OF i])
  show "?q ! (2 * i) = p ! i" if "i < length p" for i
    using nth_pairs [of p ?sd i] that by simp
  show "?q ! (2 * i + 1) = init_sd m" if "i < length p" for i
    using nth_pairs [of p ?sd i] that by simp
next
  fix a :: "'a ndarray" and lead n
  assume "wf_array a \<and> shape a = lead @ [n] \<and> even n"
  then show "split_params a =
          Inr (\<lparr>shape = lead @ [n div 2],
                data = map (\<lambda>i. data a ! (2 * i)) [0..<length (data a) div 2]\<rparr>,
               \<lparr>shape = lead @ [n div 2],
                data = map (\<lambda>i. data a ! (2 * i + 1)) [0..<length (data a) div 2]\<rparr>)"
    by (intro split_params_even) simp_all
qed

theorem interleaved_representation_witness:
  "initialize (adaptive_mutator_init (1 / 10) None) (0::nat) [5, 7] = Inr [5, 1 / 10, 7, 1 / 10] \<and>
   split_params \<lparr>shape = [2, 4], data = [1, 2, 3, 4, 5, 6, 7, 8 :: int]\<rparr> =
     Inr (\<lparr>shape = [2, 2], data = [1, 3, 5, 7]\<rparr>, \<lparr>shape = [2, 2], data = [2, 4, 6, 8]\<rparr>)"
proof -
  let ?a = "\<lparr>shape = [2, 4], data = [1, 2, 3, 4, 5, 6, 7, 8 :: int]\<rparr>"
  note t = interleaved_representation
    [where ?'a = int, of "adaptive_mutator_init (1 / 10) None" "0::nat" "[5, 7]"]
  have u: "[0..<4] = [0, 1, 2, 3]"
    by (simp add: upt_rec)
  have "wf_array ?a \<and> shape ?a = [2] @ [4] \<and> even (4::nat)"
    by (simp add: wf_array_def)
  with t have "split_params ?a =
          Inr (\<lparr>shape = [2] @ [4 div 2],
                data = map (\<lambda>i. data ?a ! (2 * i)) [0..<length (data ?a) div 2]\<rparr>,
               \<lparr>shape = [2] @ [4 div 2],
                data = map (\<lambda>i. data ?a ! (2 * i + 1)) [0..<length (data ?a) div 2]\<rparr>)"
    by blast
  then show ?thesis
    by (simp add: u initialize_def join_params_def adaptive_mutator_init_def)
qed

text \<open>
  C8. \<open>split_params\<close> of a vector of odd length fails: the reshape to pairs is
  rejected because \<open>(n div 2) * 2\<close> is not \<open>n\<close>, and no result is produced.
\<close>

theorem split_params_odd_fails:
  "odd (length xs) \<Longrightarrow> split_params (vec xs) = Inl ReshapeSizeMismatch"
proof -
  assume o: "odd (length xs)"
  then have "length xs div 2 * 2 \<noteq> length xs"
    by (metis dvd_triv_right)
  then show ?thesis
    by (simp add: split_params_def vec_def reshape_def)
qed

theorem split_params_odd_fails_witness:
  "odd (length [1, 2, 3 :: real]) \<and> split_params (vec [1, 2, 3 :: real]) = Inl ReshapeSizeMismatch"
  using split_params_odd_fails [of "[1, 2, 3 :: real]"] by simp

text \<open>
  The same holds for a batch with at least one element. A batch without elements is
  reshaped whatever its trailing size: shape \<open>(0, 3)\<close> gives two arrays of shape
  \<open>(0, 1)\<close>.
\<close>

lemma split_params_odd_batch_fails:
  assumes wf: "wf_array a" and sh: "shape a = lead @ [n]" and o: "odd n" and ne: "data a \<noteq> []"
  shows "split_params a = Inl ReshapeSizeMismatch"
proof -
  from wf have "length (data a) = prod_list lead * n"
    by (simp add: wf_array_def sh)
  with ne have pos: "prod_list lead \<noteq> 0"
    by (cases "prod_list lead = 0") simp_all
  from o have "n div 2 * 2 \<noteq> n"
    by (metis dvd_triv_right)
  with pos have "prod_list lead * (n div 2 * 2) \<noteq> prod_list lead * n"
    by simp
  with wf show ?thesis
    by (simp add: split_params_def sh case_nonempty reshape_def wf_array_def)
qed

lemma split_params_empty_batch:
  "split_params \<lparr>shape = [0, 3], data = ([] :: real list)\<rparr> =
     Inr (\<lparr>shape = [0, 1], data = []\<rparr>, \<lparr>shape = [0, 1], data = []\<rparr>)"
proof -
  have u: "[0..<2] = [0, Suc 0]"
    by (simp add: upt_rec numeral_2_eq_2)
  show ?thesis
    by (simp add: split_params_def reshape_def split_last_def index_last_def rows_Nil u)
qed

subsection \<open>The concrete generator\<close>

lemma affine_in_range:
  fixes lo hi t :: real
  assumes "lo < hi" "0 \<le> t" "t \<le> 1"
  shows "lo \<le> lo + (hi - lo) * t" and "lo + (hi - lo) * t \<le> hi"
    and "t < 1 \<Longrightarrow> lo + (hi - lo) * t < hi"
proof -
  from assms have "0 \<le> (hi - lo) * t"
    by (intro mult_nonneg_nonneg) simp_all
  then show "lo \<le> lo + (hi - lo) * t" by simp
  from assms have "(hi - lo) * t \<le> (hi - lo) * 1"
    by (intro mult_left_mono) simp_all
  then show "lo + (hi - lo) * t \<le> hi" by simp
  assume "t < 1"
  with assms have "(hi - lo) * t < (hi - lo) * 1"
    by (intro mult_strict_left_mono) simp_all
  then show "lo + (hi - lo) * t < hi" by simp
qed

lemma rng_ok_test_rng: "rng_ok test_rng"
proof -
  have u: "lo \<le> lo + (hi - lo) * real (j mod 4) / 4 \<and> lo + (hi - lo) * real (j mod 4) / 4 < hi"
    if "lo < hi" for lo hi :: real and j :: nat
  proof -
    have "j mod 4 < 4" by simp
    then have "real (j mod 4) / 4 < 1" "0 \<le> real (j mod 4) / 4" by simp_all
    with affine_in_range [of lo hi "real (j mod 4) / 4"] that show ?thesis by simp
  qed
  have t: "lo \<le> lo + (hi - lo) * real (j mod 7) / 6 \<and> lo + (hi - lo) * real (j mod 7) / 6 \<le> hi"
    if "lo < hi" for lo hi :: real and j :: nat
  proof -
    have "j mod 7 < 7" by simp
    then have "j mod 7 \<le> 6" by linarith
    then have "real (j mod 7) / 6 \<le> 1" "0 \<le> real (j mod 7) / 6" by simp_all
    with affine_in_range [of lo hi "real (j mod 7) / 6"] that show ?thesis by simp
  qed
  show ?thesis
    unfolding rng_ok_def test_rng_def using u t by simp
qed

subsection \<open>Floating-point values\<close>

lemma fmax_float32: "fmax float32 = 340282346638528859811704183484516925440"
  and ftiny_float32: "ftiny float32 = 1 / 2 ^ 126"
  by (simp_all add: float32_def)

lemma fmt_ok_float32: "fmt_ok float32"
  by (simp add: fmt_ok_def float32_def)

lemma fl_zero: "fmt_ok F \<Longrightarrow> fl F 0 = Fin 0"
  by (simp add: fl_def fmt_ok_def)

lemma fl_in_range: "in_range F x \<Longrightarrow> fl F x = Fin x"
  by (auto simp: fl_def in_range_def)

lemma fl_result: "fmt_ok F \<Longrightarrow> fl F x = Fin y \<Longrightarrow> in_range F y"
  by (auto simp: fl_def in_range_def fmt_ok_def split: if_splits)

lemma fl_bounded:
  "fmt_ok F \<Longrightarrow> \<bar>x\<bar> \<le> fmax F \<Longrightarrow> \<exists>y. fl F x = Fin y \<and> \<bar>y\<bar> \<le> \<bar>x\<bar>"
  by (auto simp: fl_def fmt_ok_def)

lemma fmul_fin:
  "fmt_ok F \<Longrightarrow> \<bar>a * b\<bar> \<le> fmax F \<Longrightarrow> \<exists>y. fmul F (Fin a) (Fin b) = Fin y \<and> \<bar>y\<bar> \<le> \<bar>a * b\<bar>"
  using fl_bounded [of F "a * b"] by simp

lemma fmul_zero_right: "fmt_ok F \<Longrightarrow> fmul F (Fin y) (Fin 0) = Fin 0"
  by (simp add: fl_zero)

lemma fmul_zero_left: "fmt_ok F \<Longrightarrow> fmul F (Fin 0) (Fin y) = Fin 0"
  by (simp add: fl_zero)

lemma fmul_result: "fmt_ok F \<Longrightarrow> fmul F x y = Fin w \<Longrightarrow> in_range F w"
  by (cases x; cases y) (auto dest: fl_result split: if_splits)

lemma fmul_one:
  assumes F: "fmt_ok F"
  shows "fmul F (fmul F x y) (Fin 1) = fmul F x y"
proof (cases "fmul F x y")
  case (Fin w)
  with F have "in_range F w" by (auto dest: fmul_result)
  then show ?thesis by (simp add: Fin fl_in_range)
qed simp_all

subsection \<open>BasicMutator\<close>

lemma fadd_zeros:
  "length ds = length p \<Longrightarrow> \<forall>d \<in> set ds. d = Fin 0 \<Longrightarrow> \<forall>x \<in> set p. in_range F x \<Longrightarrow>
   map2 (\<lambda>x d. fadd F (Fin x) d) p ds = map Fin p"
  by (induction ds p rule: list_induct2) (simp_all add: fl_in_range)

text \<open>
  C7, as the code has it. For every key, every vector \<open>p\<close> of finite floats and
  every finite float \<open>sd\<close>,
  \<open>mutate\<close> of BasicMutator returns \<open>p\<close> itself when \<open>change_perc = 0\<close> and no product
  of a normal draw with \<open>sd\<close> exceeds the largest float, and when \<open>sd = 0\<close> and
  \<open>change_perc = 1\<close>. In the first case no uniform draw of \<open>[0, 1)\<close> is below \<open>0\<close> and
  the finite product times the zero mask is zero; in the second every product is
  zero.
\<close>

theorem basic_mutate_identity:
  assumes F: "fmt_ok F" and ok: "rng_ok R" and k: "split R key = (k1, k2)"
    and inp: "\<forall>x \<in> set p. in_range F x" and sdr: "in_range F (bm_sd m)"
    and cfg: "(bm_change_perc m = 0 \<and>
               (\<forall>z \<in> set (normal R k1 (length p)). \<bar>z * bm_sd m\<bar> \<le> fmax F)) \<or>
              (bm_sd m = 0 \<and> bm_change_perc m = 1)"
  shows "basic_mutate F m R key p = map Fin p"
proof -
  let ?dp = "map2 (\<lambda>z u. fmul F (fmul F (Fin z) (Fin (bm_sd m)))
                            (Fin (if u < bm_change_perc m then 1 else 0)))
               (normal R k1 (length p)) (uniform R k2 (length p) 0 1)"
  have len: "length ?dp = length p"
    by (simp add: normal_def uniform_def)
  have zero: "d = Fin 0" if "d \<in> set ?dp" for d
  proof -
    from that obtain z u
      where zu: "(z, u) \<in> set (zip (normal R k1 (length p)) (uniform R k2 (length p) 0 1))"
        and d: "d = fmul F (fmul F (Fin z) (Fin (bm_sd m)))
                      (Fin (if u < bm_change_perc m then 1 else 0))"
      by auto
    from zu have u: "u \<in> set (uniform R k2 (length p) 0 1)"
      by (rule set_zip_rightD)
    from zu have z: "z \<in> set (normal R k1 (length p))"
      by (rule set_zip_leftD)
    from u obtain i where "u = uniform_at R k2 (length p) 0 1 i"
      by (auto simp: uniform_def)
    with ok have u0: "0 \<le> u"
      unfolding rng_ok_def by (metis zero_less_one)
    from cfg show ?thesis
    proof
      assume a: "bm_change_perc m = 0 \<and>
                 (\<forall>z \<in> set (normal R k1 (length p)). \<bar>z * bm_sd m\<bar> \<le> fmax F)"
      with z have "\<bar>z * bm_sd m\<bar> \<le> fmax F" by blast
      from fmul_fin [OF F this] obtain y where "fmul F (Fin z) (Fin (bm_sd m)) = Fin y"
        by blast
      with a u0 d F show ?thesis
        by (simp add: fl_zero)
    next
      assume "bm_sd m = 0 \<and> bm_change_perc m = 1"
      with d F show ?thesis
        by (simp add: fl_zero)
    qed
  qed
  from zero have "\<forall>d \<in> set ?dp. d = Fin 0"
    by blast
  from fadd_zeros [OF len this inp]
  have "map2 (\<lambda>x d. fadd F (Fin x) d) p ?dp = map Fin p" .
  then show ?thesis
    by (simp add: basic_mutate_def k)
qed

lemma split_test_rng: "split test_rng k = (2 * k + 1, 2 * k + 2)"
  by (simp add: test_rng_def)

theorem basic_mutate_identity_witness:
  "fmt_ok float32 \<and> rng_ok test_rng \<and> split test_rng 0 = (1, 2) \<and>
   in_range float32 1 \<and> in_range float32 2 \<and> in_range float32 3 \<and>
   in_range float32 5 \<and> in_range float32 0 \<and>
   normal test_rng 1 3 = [- 1, 0, 1] \<and>
   \<bar>- 1 * 5 :: real\<bar> \<le> fmax float32 \<and> \<bar>0 * 5 :: real\<bar> \<le> fmax float32 \<and>
   \<bar>1 * 5 :: real\<bar> \<le> fmax float32 \<and>
   basic_mutate float32 \<lparr>bm_sd = 5, bm_change_perc = 0\<rparr> test_rng 0 [1, 2, 3]
     = [Fin 1, Fin 2, Fin 3] \<and>
   basic_mutate float32 \<lparr>bm_sd = 0, bm_change_perc = 1\<rparr> test_rng 0 [1, 2, 3]
     = [Fin 1, Fin 2, Fin 3]"
proof -
  have k: "split test_rng 0 = (1, 2)"
    by (simp add: split_test_rng)
  have r: "in_range float32 1" "in_range float32 2" "in_range float32 3"
    and r5: "in_range float32 5" and r0: "in_range float32 0"
    by (simp_all add: in_range_def float32_def)
  have s1: "in_range float32 (bm_sd \<lparr>bm_sd = 5, bm_change_perc = 0\<rparr>)"
    and s2: "in_range float32 (bm_sd \<lparr>bm_sd = 0, bm_change_perc = 1\<rparr>)"
    using r5 r0 by simp_all
  from r have inp: "\<forall>x \<in> set [1, 2, 3]. in_range float32 x"
    by simp
  have n: "normal test_rng 1 3 = [- 1, 0, 1]"
    by (simp add: normal_def test_rng_def upt_rec)
  have b: "\<bar>- 1 * 5 :: real\<bar> \<le> fmax float32" "\<bar>0 * 5 :: real\<bar> \<le> fmax float32"
    "\<bar>1 * 5 :: real\<bar> \<le> fmax float32"
    by (simp_all add: float32_def)
  have c1: "(bm_change_perc \<lparr>bm_sd = 5, bm_change_perc = 0\<rparr> = 0 \<and>
             (\<forall>z \<in> set (normal test_rng 1 (length [1, 2, 3 :: real])).
                \<bar>z * bm_sd \<lparr>bm_sd = 5, bm_change_perc = 0\<rparr>\<bar> \<le> fmax float32)) \<or>
            (bm_sd \<lparr>bm_sd = 5, bm_change_perc = 0\<rparr> = 0 \<and>
             bm_change_perc \<lparr>bm_sd = 5, bm_change_perc = 0\<rparr> = 1)"
  proof -
    have l: "length [1, 2, 3 :: real] = 3"
      by simp
    have "\<forall>z \<in> set (normal test_rng 1 (length [1, 2, 3 :: real])).
            \<bar>z * bm_sd \<lparr>bm_sd = 5, bm_change_perc = 0\<rparr>\<bar> \<le> fmax float32"
      by (simp only: l n) (simp add: float32_def)
    then show ?thesis
      by simp
  qed
  have c2: "(bm_change_perc \<lparr>bm_sd = 0, bm_change_perc = 1\<rparr> = 0 \<and>
             (\<forall>z \<in> set (normal test_rng 1 (length [1, 2, 3 :: real])).
                \<bar>z * bm_sd \<lparr>bm_sd = 0, bm_change_perc = 1\<rparr>\<bar> \<le> fmax float32)) \<or>
            (bm_sd \<lparr>bm_sd = 0, bm_change_perc = 1\<rparr> = 0 \<and>
             bm_change_perc \<lparr>bm_sd = 0, bm_change_perc = 1\<rparr> = 1)"
    by simp
  from basic_mutate_identity [OF fmt_ok_float32 rng_ok_test_rng k inp s1 c1]
    basic_mutate_identity [OF fmt_ok_float32 rng_ok_test_rng k inp s2 c2]
    fmt_ok_float32 rng_ok_test_rng k r r5 r0 n b
  show ?thesis
    by simp
qed

text \<open>
  Without the bound the identity fails: with \<open>sd = 3e38\<close> and \<open>change_perc = 0\<close> the
  product of the draw \<open>2\<close> with \<open>sd\<close> overflows to infinity, infinity times the zero
  mask is NaN, and the result is NaN where the input is \<open>1\<close>.
\<close>

theorem basic_mutate_identity_counterexample:
  "rng_ok test_rng \<and> in_range float32 1 \<and>
   in_range float32 300000000000000000000000000000000000000 \<and>
   basic_mutate float32
     \<lparr>bm_sd = 300000000000000000000000000000000000000, bm_change_perc = 0\<rparr>
     test_rng 4 [1] = [NaN] \<and>
   [NaN] \<noteq> map Fin [1]"
proof -
  have "basic_mutate float32
          \<lparr>bm_sd = 300000000000000000000000000000000000000, bm_change_perc = 0\<rparr>
          test_rng 4 [1] = [NaN]"
    by (simp add: basic_mutate_def split_test_rng normal_def uniform_def test_rng_def
        fl_def fmax_float32 ftiny_float32)
  with rng_ok_test_rng show ?thesis
    by (simp add: in_range_def float32_def)
qed

subsection \<open>RandomlyAdaptiveMutator\<close>

lemma length_mutation_deltas:
  "length (fst (mutation_deltas F m R key sd)) = length sd"
  "length (snd (mutation_deltas F m R key sd)) = length sd"
  by (simp_all add: mutation_deltas_def Let_def case_prod_beta truncated_normal_def uniform_def
      split: option.splits)

lemma split_params_vec:
  assumes "split_params (vec p) = Inr (mu_a, sd_a)"
  shows "shape mu_a = [length (data mu_a)]" and "shape sd_a = [length (data sd_a)]"
    and "length (data mu_a) = length (data sd_a)"
proof -
  have ev: "even (length p)"
  proof (rule ccontr)
    assume "odd (length p)"
    then have "length p div 2 * 2 \<noteq> length p"
      by (metis dvd_triv_right)
    then have "split_params (vec p) = Inl ReshapeSizeMismatch"
      by (simp add: split_params_def vec_def reshape_def)
    with assms show False by simp
  qed
  have "split_params (vec p) =
          Inr (\<lparr>shape = [] @ [length p div 2],
                data = map (\<lambda>i. data (vec p) ! (2 * i)) [0..<length (data (vec p)) div 2]\<rparr>,
               \<lparr>shape = [] @ [length p div 2],
                data = map (\<lambda>i. data (vec p) ! (2 * i + 1)) [0..<length (data (vec p)) div 2]\<rparr>)"
    by (rule split_params_even) (simp_all add: vec_def wf_array_def ev)
  with assms have
    "mu_a = \<lparr>shape = [length p div 2], data = map (\<lambda>i. p ! (2 * i)) [0..<length p div 2]\<rparr>"
    "sd_a = \<lparr>shape = [length p div 2], data = map (\<lambda>i. p ! (2 * i + 1)) [0..<length p div 2]\<rparr>"
    by (simp_all add: vec_def)
  then show "shape mu_a = [length (data mu_a)]" and "shape sd_a = [length (data sd_a)]"
    and "length (data mu_a) = length (data sd_a)"
    by simp_all
qed

lemma mutate_split:
  assumes sp: "split_params (vec p) = Inr (mu_a, sd_a)"
  shows "\<exists>q. mutate F m R key p = Inr q \<and>
             split_params (vec q) =
               Inr (vec (map2 (\<lambda>x d. fadd F (Fin x) d) (data mu_a)
                           (fst (mutation_deltas F m R key (data sd_a)))),
                    vec (map (clip (min_sd m) (max_sd m))
                           (map2 (\<lambda>s d. fadd F (Fin s) d) (data sd_a)
                              (snd (mutation_deltas F m R key (data sd_a))))))"
proof -
  let ?new_mu = "map2 (\<lambda>x d. fadd F (Fin x) d) (data mu_a)
                   (fst (mutation_deltas F m R key (data sd_a)))"
  let ?new_sd = "map (clip (min_sd m) (max_sd m))
                   (map2 (\<lambda>s d. fadd F (Fin s) d) (data sd_a)
                      (snd (mutation_deltas F m R key (data sd_a))))"
  have len: "length ?new_mu = length ?new_sd"
    using split_params_vec(3) [OF sp] by (simp add: length_mutation_deltas)
  have m: "mutate F m R key p = join_params ?new_mu ?new_sd"
    by (simp add: mutate_def sp Let_def case_prod_beta)
  from len obtain q where q: "join_params ?new_mu ?new_sd = Inr q"
    by (simp add: join_params_def)
  from split_params_join [OF len q] m q show ?thesis
    by simp
qed

lemma nth_mutation_deltas:
  assumes i: "i < length sd"
    and k1: "split R key = (ku1, key1)" and k2: "split R key1 = (ku2, key2)"
    and k3: "split R key2 = (ku3, key3)"
  shows "fst (mutation_deltas F m R key sd) ! i =
           (let a = fmul F (Fin (truncated_normal R ku1 (- 3) 3 (length sd) ! i)) (Fin (sd ! i))
            in case change_perc m of
                 None \<Rightarrow> a
               | Some c \<Rightarrow>
                   fmul F a (Fin (if uniform R ku3 (length sd) 0 1 ! i < c then 1 else 0)))"
    and "snd (mutation_deltas F m R key sd) ! i =
           (let b = fmul F (fmul F (Fin (truncated_normal R ku2 (- 3) 3 (length sd) ! i))
                              (Fin (sd ! i)))
                      (Fin (meta_sd_perc m))
            in case change_perc m of
                 None \<Rightarrow> b
               | Some c \<Rightarrow>
                   fmul F b (Fin (if uniform R ku3 (length sd) 0 1 ! i < c then 1 else 0)))"
  using i
  by (simp_all add: mutation_deltas_def Let_def k1 k2 k3 truncated_normal_def uniform_def
      split: option.splits)

lemma dsd_finite:
  assumes F: "fmt_ok F" and ok: "rng_ok R" and i: "i < length sd"
    and b1: "3 * \<bar>sd ! i\<bar> \<le> fmax F"
    and b2: "3 * \<bar>sd ! i\<bar> * \<bar>meta_sd_perc m\<bar> \<le> fmax F"
  shows "is_fin (snd (mutation_deltas F m R key sd) ! i)"
proof -
  obtain ku1 key1 where k1: "split R key = (ku1, key1)"
    by (cases "split R key")
  obtain ku2 key2 where k2: "split R key1 = (ku2, key2)"
    by (cases "split R key1")
  obtain ku3 key3 where k3: "split R key2 = (ku3, key3)"
    by (cases "split R key2")
  let ?z = "truncated_normal R ku2 (- 3) 3 (length sd) ! i"
  let ?s = "sd ! i"
  have "?z = truncated_normal_at R ku2 (- 3) 3 (length sd) i"
    using i by (simp add: truncated_normal_def)
  moreover have "- 3 \<le> truncated_normal_at R ku2 (- 3) 3 (length sd) i \<and>
                 truncated_normal_at R ku2 (- 3) 3 (length sd) i \<le> 3"
    using ok unfolding rng_ok_def by (metis neg_less_iff_less neg_less_pos zero_less_numeral)
  ultimately have z: "\<bar>?z\<bar> \<le> 3"
    by (simp add: abs_le_iff)
  have zs: "\<bar>?z * ?s\<bar> \<le> 3 * \<bar>?s\<bar>"
    using z by (simp add: abs_mult mult_right_mono)
  with b1 have "\<bar>?z * ?s\<bar> \<le> fmax F"
    by simp
  from fmul_fin [OF F this] obtain y where
    y: "fmul F (Fin ?z) (Fin ?s) = Fin y" and yb: "\<bar>y\<bar> \<le> \<bar>?z * ?s\<bar>"
    by blast
  from yb zs have "\<bar>y\<bar> \<le> 3 * \<bar>?s\<bar>"
    by simp
  then have "\<bar>y\<bar> * \<bar>meta_sd_perc m\<bar> \<le> 3 * \<bar>?s\<bar> * \<bar>meta_sd_perc m\<bar>"
    by (rule mult_right_mono) simp
  with b2 have ym: "\<bar>y * meta_sd_perc m\<bar> \<le> fmax F"
    by (simp add: abs_mult)
  from fmul_fin [OF F this] obtain w where
    w: "fmul F (Fin y) (Fin (meta_sd_perc m)) = Fin w" and wb: "\<bar>w\<bar> \<le> \<bar>y * meta_sd_perc m\<bar>"
    by blast
  from wb ym have wf: "\<bar>w\<bar> \<le> fmax F"
    by simp
  have masked: "is_fin (fmul F (Fin w) (Fin k))" if "k = 0 \<or> k = 1" for k :: real
  proof -
    from that wf have "\<bar>w * k\<bar> \<le> fmax F"
      using F by (auto simp: fmt_ok_def)
    from fmul_fin [OF F this] show ?thesis
      by auto
  qed
  from y have y': "fl F (?z * ?s) = Fin y"
    by simp
  from w have w': "fl F (y * meta_sd_perc m) = Fin w"
    by simp
  from masked [of 0] masked [of 1] have m01: "is_fin (fl F 0)" "is_fin (fl F w)"
    by simp_all
  show ?thesis
  proof (cases "change_perc m")
    case None
    then show ?thesis
      by (simp add: nth_mutation_deltas(2) [OF i k1 k2 k3] y' w')
  next
    case (Some c)
    with m01 show ?thesis
      by (simp add: nth_mutation_deltas(2) [OF i k1 k2 k3] y' w')
  qed
qed

lemma clip_fadd:
  assumes le: "lo \<le> hi" and w: "is_fin w"
  shows "\<exists>s. clip lo hi (fadd F (Fin x) w) = Fin s \<and> lo \<le> s \<and> s \<le> hi"
proof -
  from w obtain y where "w = Fin y"
    by (cases w) simp_all
  with le show ?thesis
    by (simp add: fl_def)
qed

lemma mutate_sd_bounded:
  assumes F: "fmt_ok F" and ok: "rng_ok R"
    and sp: "split_params (vec p) = Inr (mu_a, sd_a)"
    and le: "data sd_a \<noteq> [] \<Longrightarrow> min_sd m \<le> max_sd m"
    and bound: "\<And>s. s \<in> set (data sd_a) \<Longrightarrow>
                 3 * \<bar>s\<bar> \<le> fmax F \<and> 3 * \<bar>s\<bar> * \<bar>meta_sd_perc m\<bar> \<le> fmax F"
  shows "\<exists>q mu' sd'. mutate F m R key p = Inr q \<and> split_params (vec q) = Inr (mu', sd') \<and>
           data sd' = map (clip (min_sd m) (max_sd m))
                        (map2 (\<lambda>s d. fadd F (Fin s) d) (data sd_a)
                           (snd (mutation_deltas F m R key (data sd_a)))) \<and>
           (\<forall>v \<in> set (data sd'). \<exists>s. v = Fin s \<and> min_sd m \<le> s \<and> s \<le> max_sd m)"
proof -
  let ?sd = "data sd_a"
  let ?dsd = "snd (mutation_deltas F m R key ?sd)"
  let ?new_mu = "map2 (\<lambda>x d. fadd F (Fin x) d) (data mu_a)
                   (fst (mutation_deltas F m R key ?sd))"
  let ?new_sd = "map (clip (min_sd m) (max_sd m)) (map2 (\<lambda>s d. fadd F (Fin s) d) ?sd ?dsd)"
  have rng: "\<exists>s. v = Fin s \<and> min_sd m \<le> s \<and> s \<le> max_sd m" if v: "v \<in> set ?new_sd" for v
  proof -
    from v obtain s d where sd: "(s, d) \<in> set (zip ?sd ?dsd)"
      and ve: "v = clip (min_sd m) (max_sd m) (fadd F (Fin s) d)"
      by auto
    from sd obtain i where i: "i < length ?sd" and s: "s = ?sd ! i" and d: "d = ?dsd ! i"
      by (auto simp: in_set_zip)
    from i s have "s \<in> set ?sd" by simp
    from bound [OF this] s have "3 * \<bar>?sd ! i\<bar> \<le> fmax F"
      "3 * \<bar>?sd ! i\<bar> * \<bar>meta_sd_perc m\<bar> \<le> fmax F"
      by simp_all
    from dsd_finite [OF F ok i this] d have "is_fin d"
      by simp
    moreover from i have "min_sd m \<le> max_sd m"
      by (intro le) auto
    ultimately show ?thesis
      using clip_fadd [of "min_sd m" "max_sd m" d F s] ve by simp
  qed
  from mutate_split [OF sp, of F m R key] obtain q where
    "mutate F m R key p = Inr q"
    "split_params (vec q) = Inr (vec ?new_mu, vec ?new_sd)"
    by blast
  with rng show ?thesis
    by (intro exI [of _ q] exI [of _ "vec ?new_sd"] exI [of _ "vec ?new_mu"])
      (simp add: vec_def)
qed

text \<open>
  C3, as the code has it. When \<open>meta_sd_perc\<close> is a finite float,
  \<open>3 * max(|min_sd|, |max_sd|)\<close> and its product with
  \<open>|meta_sd_perc|\<close> do not exceed the largest float (so that no product of a draw with
  an in-range std-dev overflows), and the std-devs that \<open>split_params\<close> finds in the
  input all lie in \<open>[min_sd, max_sd]\<close>, \<open>mutate\<close> succeeds, the std-devs that
  \<open>split_params\<close> finds in its output are \<open>clip (sd + dsd)\<close> element by element (the
  clamp comes after the addition), and each of them is a finite number in
  \<open>[min_sd, max_sd]\<close>.
\<close>

theorem mutate_sd_clamped:
  assumes F: "fmt_ok F" and ok: "rng_ok R"
    and sp: "split_params (vec p) = Inr (mu_a, sd_a)"
    and inp: "\<forall>s \<in> set (data sd_a). min_sd m \<le> s \<and> s \<le> max_sd m"
    and mr: "in_range F (meta_sd_perc m)"
    and b1: "3 * max \<bar>min_sd m\<bar> \<bar>max_sd m\<bar> \<le> fmax F"
    and b2: "3 * max \<bar>min_sd m\<bar> \<bar>max_sd m\<bar> * \<bar>meta_sd_perc m\<bar> \<le> fmax F"
  shows "\<exists>q mu' sd'. mutate F m R key p = Inr q \<and> split_params (vec q) = Inr (mu', sd') \<and>
           data sd' = map (clip (min_sd m) (max_sd m))
                        (map2 (\<lambda>s d. fadd F (Fin s) d) (data sd_a)
                           (snd (mutation_deltas F m R key (data sd_a)))) \<and>
           (\<forall>v \<in> set (data sd'). \<exists>s. v = Fin s \<and> min_sd m \<le> s \<and> s \<le> max_sd m)"
proof (rule mutate_sd_bounded [OF F ok sp])
  assume "data sd_a \<noteq> []"
  then obtain s0 where "s0 \<in> set (data sd_a)"
    by (cases "data sd_a") auto
  with inp show "min_sd m \<le> max_sd m"
    by fastforce
next
  fix s
  assume "s \<in> set (data sd_a)"
  with inp have "min_sd m \<le> s" "s \<le> max_sd m"
    by simp_all
  then have s: "\<bar>s\<bar> \<le> max \<bar>min_sd m\<bar> \<bar>max_sd m\<bar>"
    by (simp add: abs_le_iff max_def) linarith
  then have "3 * \<bar>s\<bar> \<le> 3 * max \<bar>min_sd m\<bar> \<bar>max_sd m\<bar>"
    by simp
  then have "3 * \<bar>s\<bar> * \<bar>meta_sd_perc m\<bar>
               \<le> 3 * max \<bar>min_sd m\<bar> \<bar>max_sd m\<bar> * \<bar>meta_sd_perc m\<bar>"
    by (rule mult_right_mono) simp
  with s b1 b2 show "3 * \<bar>s\<bar> \<le> fmax F \<and> 3 * \<bar>s\<bar> * \<bar>meta_sd_perc m\<bar> \<le> fmax F"
    by simp
qed

lemma split_params_example:
  "split_params (vec [x, s]) = Inr (vec [x], vec [s])"
  by (rule split_params_join [of "[x]" "[s]"]) (simp_all add: join_params_def)

lemma mutate_example_in_range:
  "mutate float32 (adaptive_mutator_init (1 / 10) (Some (1 / 2))) test_rng 0 [5, 1 / 10]
     = Inr [Fin (24 / 5), Fin (3 / 25)]"
proof -
  have d: "mutation_deltas float32 (adaptive_mutator_init (1 / 10) (Some (1 / 2))) test_rng 0
             [1 / 10] = ([Fin (- 1 / 5)], [Fin (1 / 50)])"
    by (simp add: mutation_deltas_def test_rng_def adaptive_mutator_init_def
        truncated_normal_def uniform_def Let_def fl_def fmax_float32 ftiny_float32)
  show ?thesis
    by (subst mutate_def, subst split_params_example)
      (simp add: vec_def Let_def d [unfolded adaptive_mutator_init_def] join_params_def
        adaptive_mutator_init_def fl_def fmax_float32 ftiny_float32)
qed

theorem mutate_sd_clamped_witness:
  "fmt_ok float32 \<and> rng_ok test_rng \<and>
   split_params (vec [5, 1 / 10 :: real]) = Inr (vec [5], vec [1 / 10]) \<and>
   min_sd (adaptive_mutator_init (1 / 10) (Some (1 / 2))) \<le> 1 / 10 \<and>
   1 / 10 \<le> max_sd (adaptive_mutator_init (1 / 10) (Some (1 / 2))) \<and>
   in_range float32 (meta_sd_perc (adaptive_mutator_init (1 / 10) (Some (1 / 2)))) \<and>
   3 * max \<bar>min_sd (adaptive_mutator_init (1 / 10) (Some (1 / 2)))\<bar>
           \<bar>max_sd (adaptive_mutator_init (1 / 10) (Some (1 / 2)))\<bar> \<le> fmax float32 \<and>
   3 * max \<bar>min_sd (adaptive_mutator_init (1 / 10) (Some (1 / 2)))\<bar>
           \<bar>max_sd (adaptive_mutator_init (1 / 10) (Some (1 / 2)))\<bar> *
       \<bar>meta_sd_perc (adaptive_mutator_init (1 / 10) (Some (1 / 2)))\<bar> \<le> fmax float32 \<and>
   mutate float32 (adaptive_mutator_init (1 / 10) (Some (1 / 2))) test_rng 0 [5, 1 / 10]
     = Inr [Fin (24 / 5), Fin (3 / 25)] \<and>
   (\<exists>mu'. split_params (vec [Fin (24 / 5), Fin (3 / 25)]) = Inr (mu', vec [Fin (3 / 25)])) \<and>
   min_sd (adaptive_mutator_init (1 / 10) (Some (1 / 2))) \<le> 3 / 25 \<and>
   3 / 25 \<le> max_sd (adaptive_mutator_init (1 / 10) (Some (1 / 2)))"
proof -
  let ?m = "adaptive_mutator_init (1 / 10) (Some (1 / 2))"
  have sp: "split_params (vec [5, 1 / 10 :: real]) = Inr (vec [5], vec [1 / 10])"
    by (rule split_params_example)
  have inp: "\<forall>s \<in> set (data (vec [1 / 10 :: real])). min_sd ?m \<le> s \<and> s \<le> max_sd ?m"
    by (simp add: vec_def adaptive_mutator_init_def)
  have mr: "in_range float32 (meta_sd_perc ?m)"
    by (simp add: adaptive_mutator_init_def in_range_def float32_def)
  have b1: "3 * max \<bar>min_sd ?m\<bar> \<bar>max_sd ?m\<bar> \<le> fmax float32"
    and b2: "3 * max \<bar>min_sd ?m\<bar> \<bar>max_sd ?m\<bar> * \<bar>meta_sd_perc ?m\<bar> \<le> fmax float32"
    by (simp_all add: adaptive_mutator_init_def float32_def)
  from mutate_sd_clamped [OF fmt_ok_float32 rng_ok_test_rng sp inp mr b1 b2, of 0]
  obtain q mu' sd' where
    q: "mutate float32 ?m test_rng 0 [5, 1 / 10] = Inr q"
    and s: "split_params (vec q) = Inr (mu', sd')"
    and b: "\<forall>v \<in> set (data sd'). \<exists>s. v = Fin s \<and> min_sd ?m \<le> s \<and> s \<le> max_sd ?m"
    by blast
  from q have q': "q = [Fin (24 / 5), Fin (3 / 25)]"
    by (simp add: mutate_example_in_range)
  with s have sd': "sd' = vec [Fin (3 / 25)]"
    by (simp add: split_params_example)
  with b have r: "min_sd ?m \<le> 3 / 25 \<and> 3 / 25 \<le> max_sd ?m"
    by (auto simp: vec_def)
  from s q' sd' have e: "\<exists>mu'. split_params (vec [Fin (24 / 5), Fin (3 / 25)])
                                = Inr (mu', vec [Fin (3 / 25)])"
    by auto
  have i: "min_sd ?m \<le> 1 / 10" "1 / 10 \<le> max_sd ?m"
    by (simp_all add: adaptive_mutator_init_def)
  from fmt_ok_float32 rng_ok_test_rng sp i mr b1 b2 mutate_example_in_range e r
  show ?thesis
    by blast
qed

text \<open>
  Without the bound on the configuration the std-dev leaves the range: with
  \<open>max_sd = 3.4e38\<close>, the in-range std-dev \<open>3e38\<close> and a zero mask, the product of the
  draw with the std-dev overflows, infinity times zero is NaN, and the clamp of NaN
  is NaN.
\<close>

theorem mutate_sd_clamped_counterexample:
  "fmt_ok float32 \<and> rng_ok test_rng \<and>
   split_params (vec [5, 300000000000000000000000000000000000000 :: real])
     = Inr (vec [5], vec [300000000000000000000000000000000000000]) \<and>
   (1 / 100000 :: real) \<le> 300000000000000000000000000000000000000 \<and>
   (300000000000000000000000000000000000000 :: real)
     \<le> 340000000000000000000000000000000000000 \<and>
   in_range float32 340000000000000000000000000000000000000 \<and>
   in_range float32 (1 / 10) \<and>
   mutate float32
     \<lparr>init_sd = 1 / 10, change_perc = Some 0, meta_sd_perc = 1 / 10,
        min_sd = 1 / 100000, max_sd = 340000000000000000000000000000000000000\<rparr>
     test_rng 0 [5, 300000000000000000000000000000000000000] = Inr [NaN, NaN] \<and>
   split_params (vec [NaN, NaN]) = Inr (vec [NaN], vec [NaN])"
proof -
  have d: "mutation_deltas float32
             \<lparr>init_sd = 1 / 10, change_perc = Some 0, meta_sd_perc = 1 / 10,
                min_sd = 1 / 100000, max_sd = 340000000000000000000000000000000000000\<rparr>
             test_rng 0 [300000000000000000000000000000000000000] = ([NaN], [NaN])"
    by (simp add: mutation_deltas_def test_rng_def truncated_normal_def uniform_def Let_def
        fl_def fmax_float32 ftiny_float32)
  have "mutate float32
          \<lparr>init_sd = 1 / 10, change_perc = Some 0, meta_sd_perc = 1 / 10,
             min_sd = 1 / 100000, max_sd = 340000000000000000000000000000000000000\<rparr>
          test_rng 0 [5, 300000000000000000000000000000000000000] = Inr [NaN, NaN]"
    by (subst mutate_def, subst split_params_example)
      (simp add: vec_def Let_def d join_params_def)
  with fmt_ok_float32 rng_ok_test_rng show ?thesis
    by (simp add: split_params_example in_range_def float32_def)
qed





text \<open>
  C2, as the code has it. With \<open>change_perc\<close> not \<open>None\<close> and \<open>meta_sd_perc\<close> a
  finite float, at every index \<open>i\<close>, with
  \<open>a\<close> the product of the first draw with the std-dev and \<open>b\<close> the product of the
  second draw with the std-dev and \<open>meta_sd_perc\<close>: where the shared mask is \<open>0\<close> (the
  uniform draw is not below \<open>change_perc\<close>) and \<open>a\<close> and \<open>b\<close> are finite, \<open>dmu[i]\<close> and
  \<open>dsd[i]\<close> are both \<open>0\<close>; where the mask is \<open>1\<close>, \<open>dmu[i]\<close> is \<open>a\<close> and \<open>dsd[i]\<close> is
  \<open>b\<close>; so when \<open>a\<close> and \<open>b\<close> are finite and nonzero, \<open>dmu[i] = 0\<close> if and only if
  \<open>dsd[i] = 0\<close>.
\<close>

theorem mutation_deltas_coupled:
  assumes F: "fmt_ok F" and mr: "in_range F (meta_sd_perc m)"
    and c: "change_perc m = Some c" and i: "i < length sd"
    and k1: "split R key = (ku1, key1)" and k2: "split R key1 = (ku2, key2)"
    and k3: "split R key2 = (ku3, key3)"
    and d: "mutation_deltas F m R key sd = (dmu, dsd)"
    and a: "a = fmul F (Fin (truncated_normal R ku1 (- 3) 3 (length sd) ! i)) (Fin (sd ! i))"
    and b: "b = fmul F (fmul F (Fin (truncated_normal R ku2 (- 3) 3 (length sd) ! i))
                          (Fin (sd ! i)))
                  (Fin (meta_sd_perc m))"
  shows "(\<not> uniform R ku3 (length sd) 0 1 ! i < c \<and> is_fin a \<and> is_fin b \<longrightarrow>
            dmu ! i = Fin 0 \<and> dsd ! i = Fin 0) \<and>
         (uniform R ku3 (length sd) 0 1 ! i < c \<longrightarrow> dmu ! i = a \<and> dsd ! i = b) \<and>
         (is_fin a \<and> is_fin b \<and> a \<noteq> Fin 0 \<and> b \<noteq> Fin 0 \<longrightarrow>
            (dmu ! i = Fin 0 \<longleftrightarrow> dsd ! i = Fin 0))"
proof -
  let ?k = "if uniform R ku3 (length sd) 0 1 ! i < c then 1 else 0 :: real"
  from d have "dmu = fst (mutation_deltas F m R key sd)" "dsd = snd (mutation_deltas F m R key sd)"
    by simp_all
  then have e: "dmu ! i = fmul F a (Fin ?k)" "dsd ! i = fmul F b (Fin ?k)"
    by (simp_all only: nth_mutation_deltas [OF i k1 k2 k3] c a b Let_def option.case)
  have one: "fmul F a (Fin 1) = a" "fmul F b (Fin 1) = b"
    unfolding a b by (rule fmul_one [OF F])+
  have zero: "fmul F v (Fin 0) = Fin 0" if "is_fin v" for v
    using that F by (cases v) (simp_all add: fl_zero)
  show ?thesis
  proof (cases "uniform R ku3 (length sd) 0 1 ! i < c")
    case True
    with e one show ?thesis by simp
  next
    case False
    with e zero show ?thesis by simp
  qed
qed

theorem mutation_deltas_coupled_witness:
  "fmt_ok float32 \<and>
   in_range float32 (meta_sd_perc (adaptive_mutator_init (1 / 10) (Some (1 / 2)))) \<and>
   change_perc (adaptive_mutator_init (1 / 10) (Some (1 / 2))) = Some (1 / 2) \<and>
   0 < length [1 / 10 :: real] \<and>
   split test_rng 0 = (1, 2) \<and> split test_rng 2 = (5, 6) \<and> split test_rng 6 = (13, 14) \<and>
   mutation_deltas float32 (adaptive_mutator_init (1 / 10) (Some (1 / 2))) test_rng 0 [1 / 10]
     = ([Fin (- 1 / 5)], [Fin (1 / 50)]) \<and>
   Fin (- 1 / 5) = fmul float32 (Fin (truncated_normal test_rng 1 (- 3) 3 1 ! 0)) (Fin (1 / 10)) \<and>
   Fin (1 / 50) = fmul float32 (fmul float32 (Fin (truncated_normal test_rng 5 (- 3) 3 1 ! 0))
                                   (Fin (1 / 10)))
                     (Fin (meta_sd_perc (adaptive_mutator_init (1 / 10) (Some (1 / 2))))) \<and>
   uniform test_rng 13 1 0 1 ! 0 < 1 / 2 \<and>
   is_fin (Fin (- 1 / 5)) \<and> is_fin (Fin (1 / 50)) \<and>
   Fin (- 1 / 5) \<noteq> Fin 0 \<and> Fin (1 / 50) \<noteq> Fin 0 \<and>
   ([Fin (- 1 / 5)] ! 0 = Fin 0 \<longleftrightarrow> [Fin (1 / 50)] ! 0 = Fin 0)"
proof -
  let ?m = "adaptive_mutator_init (1 / 10) (Some (1 / 2))"
  have c: "change_perc ?m = Some (1 / 2)"
    by (simp add: adaptive_mutator_init_def)
  have mr: "in_range float32 (meta_sd_perc ?m)"
    by (simp add: adaptive_mutator_init_def in_range_def float32_def)
  have i: "0 < length [1 / 10 :: real]"
    by simp
  have k: "split test_rng 0 = (1, 2)" "split test_rng 2 = (5, 6)" "split test_rng 6 = (13, 14)"
    by (simp_all add: test_rng_def)
  have d: "mutation_deltas float32 ?m test_rng 0 [1 / 10] = ([Fin (- 1 / 5)], [Fin (1 / 50)])"
    by (simp add: mutation_deltas_def test_rng_def adaptive_mutator_init_def
        truncated_normal_def uniform_def Let_def fl_def fmax_float32 ftiny_float32)
  have a: "Fin (- 1 / 5) =
             fmul float32 (Fin (truncated_normal test_rng 1 (- 3) 3 (length [1 / 10 :: real]) ! 0))
               (Fin ([1 / 10] ! 0))"
    by (simp add: test_rng_def truncated_normal_def fl_def fmax_float32 ftiny_float32)
  have b: "Fin (1 / 50) =
             fmul float32
               (fmul float32 (Fin (truncated_normal test_rng 5 (- 3) 3 (length [1 / 10 :: real]) ! 0))
                  (Fin ([1 / 10] ! 0)))
               (Fin (meta_sd_perc ?m))"
    by (simp add: test_rng_def truncated_normal_def adaptive_mutator_init_def fl_def
        fmax_float32 ftiny_float32)
  have u: "uniform test_rng 13 1 0 1 ! 0 < 1 / 2"
    by (simp add: test_rng_def uniform_def)
  from mutation_deltas_coupled [OF fmt_ok_float32 mr c i k d a b]
  have e: "[Fin (- 1 / 5)] ! 0 = Fin 0 \<longleftrightarrow> [Fin (1 / 50) :: f32] ! 0 = Fin 0"
    by simp
  have a': "Fin (- 1 / 5) =
              fmul float32 (Fin (truncated_normal test_rng 1 (- 3) 3 1 ! 0)) (Fin (1 / 10))"
    using a by simp
  have b': "Fin (1 / 50) =
              fmul float32 (fmul float32 (Fin (truncated_normal test_rng 5 (- 3) 3 1 ! 0))
                              (Fin (1 / 10)))
                (Fin (meta_sd_perc ?m))"
    using b by simp
  have n: "is_fin (Fin (- 1 / 5))" "is_fin (Fin (1 / 50))"
    "Fin (- 1 / 5) \<noteq> Fin 0" "Fin (1 / 50) \<noteq> Fin 0"
    by simp_all
  from fmt_ok_float32 mr c i k d a' b' u n e show ?thesis
    by blast
qed

text \<open>
  The equivalence itself fails: with \<open>meta_sd_perc = 0\<close> the value delta is \<open>-2\<close> and
  the std-dev delta is \<open>0\<close>; and with the default configuration and a std-dev already
  at \<open>max_sd\<close> the value moves from \<open>5\<close> to \<open>-15\<close> while the clamp leaves the std-dev
  at \<open>10\<close>.
\<close>

theorem mutation_deltas_coupled_counterexample:
  "fmt_ok float32 \<and> rng_ok test_rng \<and>
   \<not> (fst (mutation_deltas float32
              \<lparr>init_sd = 1 / 10, change_perc = Some 1, meta_sd_perc = 0,
                 min_sd = 1 / 100000, max_sd = 10\<rparr> test_rng 0 [1]) ! 0 = Fin 0 \<longleftrightarrow>
       snd (mutation_deltas float32
              \<lparr>init_sd = 1 / 10, change_perc = Some 1, meta_sd_perc = 0,
                 min_sd = 1 / 100000, max_sd = 10\<rparr> test_rng 0 [1]) ! 0 = Fin 0) \<and>
   mutation_deltas float32
     \<lparr>init_sd = 1 / 10, change_perc = Some 1, meta_sd_perc = 0, min_sd = 1 / 100000, max_sd = 10\<rparr>
     test_rng 0 [1] = ([Fin (- 2)], [Fin 0]) \<and>
   mutate float32 (adaptive_mutator_init (1 / 10) (Some 1)) test_rng 0 [5, 10]
     = Inr [Fin (- 15), Fin 10]"
proof -
  have d: "mutation_deltas float32 (adaptive_mutator_init (1 / 10) (Some 1)) test_rng 0 [10]
             = ([Fin (- 20)], [Fin 2])"
    by (simp add: mutation_deltas_def test_rng_def adaptive_mutator_init_def
        truncated_normal_def uniform_def Let_def fl_def fmax_float32 ftiny_float32)
  have "mutate float32 (adaptive_mutator_init (1 / 10) (Some 1)) test_rng 0 [5, 10]
          = Inr [Fin (- 15), Fin 10]"
    by (subst mutate_def, subst split_params_example)
      (simp add: vec_def Let_def d [unfolded adaptive_mutator_init_def] join_params_def
        adaptive_mutator_init_def fl_def fmax_float32 ftiny_float32)
  with fmt_ok_float32 rng_ok_test_rng show ?thesis
    by (simp add: mutation_deltas_def test_rng_def truncated_normal_def uniform_def Let_def
        fl_def fmax_float32 ftiny_float32)
qed

subsection \<open>Value noise\<close>

lemma length_repeat: "length (repeat xs r) = length xs * r"
  by (induction xs) (simp_all add: repeat_def)

lemma repeat_Cons: "repeat (x # xs) r = replicate r x @ repeat xs r"
  by (simp add: repeat_def)

lemma nth_repeat: "i < length xs * r \<Longrightarrow> repeat xs r ! i = xs ! (i div r)"
proof (induction xs arbitrary: i)
  case Nil
  then show ?case by simp
next
  case (Cons x xs)
  show ?case
  proof (cases "i < r")
    case True
    then show ?thesis by (simp add: repeat_Cons nth_append)
  next
    case False
    then have ge: "r \<le> i" by simp
    with Cons.prems have "i - r < length xs * r" by simp
    from Cons.IH [OF this] have "repeat xs r ! (i - r) = xs ! ((i - r) div r)" .
    moreover from Cons.prems have "0 < r"
      by (cases r) simp_all
    with ge have "i div r = Suc ((i - r) div r)"
      by (simp add: le_div_geq)
    ultimately show ?thesis
      using False by (simp add: repeat_Cons nth_append)
  qed
qed

lemma length_tile: "length (tile xs k) = k * length xs"
  by (induction k) (simp_all add: tile_def)

lemma nth_tile: "i < k * length xs \<Longrightarrow> tile xs k ! i = xs ! (i mod length xs)"
proof (induction k arbitrary: i)
  case 0
  then show ?case by simp
next
  case (Suc k)
  have t: "tile xs (Suc k) = xs @ tile xs k"
    by (simp add: tile_def)
  show ?case
  proof (cases "i < length xs")
    case True
    then show ?thesis by (simp add: t nth_append)
  next
    case False
    with Suc.prems have "i - length xs < k * length xs" by simp
    from Suc.IH [OF this] False show ?thesis
      by (simp add: t nth_append le_mod_geq)
  qed
qed

lemma butlast_linspace:
  "butlast (linspace 0 1 (Suc r)) = map (\<lambda>i. real i / real r) [0..<r]"
  by (cases "r = 0") (simp_all add: linspace_def butlast_append)

lemma ceil_repeats_aux:
  assumes pos: "0 < d"
  shows "n \<le> d * nat \<lceil>real n / real d\<rceil>"
proof -
  let ?r = "nat \<lceil>real n / real d\<rceil>"
  have "real n / real d \<le> real_of_int \<lceil>real n / real d\<rceil>"
    by (rule le_of_int_ceiling)
  also have "\<dots> \<le> real ?r"
    by simp
  finally have a: "real n / real d \<le> real ?r" .
  have "real n = real n / real d * real d"
    using pos by simp
  also have "\<dots> \<le> real ?r * real d"
    using a by (rule mult_right_mono) simp
  finally have "real n \<le> real (?r * d)" by simp
  then have "n \<le> ?r * d" by (simp only: of_nat_le_iff)
  then show ?thesis by (simp add: mult.commute)
qed

lemma ceil_repeats: "2 \<le> f \<Longrightarrow> n \<le> (f - 1) * nat \<lceil>real n / real (f - 1)\<rceil>"
  by (rule ceil_repeats_aux) simp

lemma valuenoise1d_eq:
  assumes f: "2 \<le> f" and k: "split R key = (ku, key')"
  shows "valuenoise1d R key f n interpolation =
           Inr (map (\<lambda>i.
                  let r = nat \<lceil>real n / real (f - 1)\<rceil>;
                      g = uniform R ku f (- 1) 1;
                      t = real (i mod r) / real r;
                      t' = (if interpolation = ''cubic'' then smoothstep t else t)
                  in g ! (i div r) + t' * (g ! (i div r + 1) - g ! (i div r)))
                [0..<n])"
proof -
  define r where "r = nat \<lceil>real n / real (f - 1)\<rceil>"
  define g where "g = uniform R ku f (- 1) 1"
  define prev where "prev = take n (repeat (butlast g) r)"
  define nxt where "nxt = take n (repeat (tl g) r)"
  define t where "t = take n (tile (butlast (linspace 0 1 (r + 1))) (f - 1))"
  define t' where "t' = (if interpolation = ''cubic'' then map smoothstep t else t)"
  have lg: "length g = f"
    by (simp add: g_def uniform_def)
  have cover: "n \<le> (f - 1) * r"
    unfolding r_def by (rule ceil_repeats [OF f])
  have lp: "length prev = n" and ln: "length nxt = n"
    using cover by (simp_all add: prev_def nxt_def length_repeat lg)
  have lt: "length t = n"
    using cover by (simp add: t_def length_tile butlast_linspace)
  have lt': "length t' = n"
    by (simp add: t'_def lt)
  have seg: "i div r < f - 1" and rpos: "0 < r" if "i < n" for i
  proof -
    from that cover have "i < (f - 1) * r" by simp
    then show "0 < r" by (cases r) simp_all
    with \<open>i < (f - 1) * r\<close> show "i div r < f - 1"
      by (simp add: less_mult_imp_div_less)
  qed
  have np: "prev ! i = g ! (i div r)" if "i < n" for i
  proof -
    from that cover have "i < length (butlast g) * r" by (simp add: lg)
    then have "repeat (butlast g) r ! i = butlast g ! (i div r)"
      by (rule nth_repeat)
    also have "\<dots> = g ! (i div r)"
      using seg [OF that] by (simp add: nth_butlast lg)
    finally show ?thesis using that by (simp add: prev_def)
  qed
  have nn: "nxt ! i = g ! (i div r + 1)" if "i < n" for i
  proof -
    from that cover have "i < length (tl g) * r" by (simp add: lg)
    then have "repeat (tl g) r ! i = tl g ! (i div r)"
      by (rule nth_repeat)
    also have "\<dots> = g ! (i div r + 1)"
      using seg [OF that] by (simp add: nth_tl lg)
    finally show ?thesis using that by (simp add: nxt_def)
  qed
  have nt: "t ! i = real (i mod r) / real r" if "i < n" for i
  proof -
    let ?b = "butlast (linspace 0 1 (r + 1))"
    have lb: "length ?b = r" by (simp add: butlast_linspace)
    from that cover have "i < (f - 1) * r" by simp
    then have "i < (f - 1) * length ?b" by (simp only: lb)
    then have "tile ?b (f - 1) ! i = ?b ! (i mod length ?b)"
      by (rule nth_tile)
    also have "\<dots> = ?b ! (i mod r)"
      by (simp only: lb)
    also have "\<dots> = real (i mod r) / real r"
      using rpos [OF that] by (simp add: butlast_linspace)
    finally show ?thesis using that by (simp add: t_def)
  qed
  have nt': "t' ! i = (if interpolation = ''cubic'' then smoothstep (real (i mod r) / real r)
                       else real (i mod r) / real r)" if "i < n" for i
    using that by (simp add: t'_def nt lt)
  have "map2 (+) prev (map2 (*) t' (map2 (-) nxt prev)) =
          map (\<lambda>i. g ! (i div r) +
                 (if interpolation = ''cubic'' then smoothstep (real (i mod r) / real r)
                  else real (i mod r) / real r) * (g ! (i div r + 1) - g ! (i div r)))
            [0..<n]"
    by (rule nth_equalityI) (simp_all add: lp ln lt' np nn nt')
  moreover have "valuenoise1d R key f n interpolation =
                   Inr (map2 (+) prev (map2 (*) t' (map2 (-) nxt prev)))"
    using f by (simp add: valuenoise1d_def k Let_def prev_def nxt_def t_def t'_def r_def g_def)
  ultimately show ?thesis
    by (simp add: Let_def r_def g_def)
qed

lemma interpolation_in_range:
  fixes a b t :: real
  assumes "- 1 \<le> a" "a \<le> 1" "- 1 \<le> b" "b \<le> 1" "0 \<le> t" "t \<le> 1"
  shows "- 1 \<le> a + t * (b - a) \<and> a + t * (b - a) \<le> 1"
proof -
  have e: "a + t * (b - a) = (1 - t) * a + t * b"
    by (simp add: algebra_simps)
  from assms have "(1 - t) * a \<le> (1 - t) * 1" "t * b \<le> t * 1"
    by (intro mult_left_mono; simp)+
  moreover from assms have "(1 - t) * (- 1) \<le> (1 - t) * a" "t * (- 1) \<le> t * b"
    by (intro mult_left_mono; simp)+
  ultimately show ?thesis
    unfolding e by simp
qed

text \<open>
  C5. For every key, \<open>f \<ge> 2\<close> and \<open>n \<ge> 1\<close>, \<open>valuenoise1d\<close> with \<open>"linear"\<close> returns
  exactly \<open>n\<close> values. With \<open>r = ceil(n / (f - 1))\<close> the \<open>f - 1\<close> segments of \<open>r\<close>
  elements cover the \<open>n\<close> positions; position \<open>i\<close> lies in segment \<open>i div r\<close> and holds
  the linear interpolation between gradients \<open>i div r\<close> and \<open>i div r + 1\<close> at the
  fraction \<open>(i mod r) / r\<close>; the \<open>f\<close> gradients lie in \<open>[-1, 1)\<close> and every output
  value lies in \<open>[-1, 1]\<close>.
\<close>

theorem valuenoise1d_linear:
  assumes ok: "rng_ok R" and f: "2 \<le> f" and n: "1 \<le> n"
    and k: "split R key = (ku, key')"
    and r: "r = nat \<lceil>real n / real (f - 1)\<rceil>"
    and g: "g = uniform R ku f (- 1) 1"
  shows "\<exists>ys. valuenoise1d R key f n ''linear'' = Inr ys \<and> length ys = n \<and>
           n \<le> (f - 1) * r \<and> length g = f \<and> (\<forall>x \<in> set g. - 1 \<le> x \<and> x < 1) \<and>
           (\<forall>i < n. i div r + 1 < f \<and>
              ys ! i = g ! (i div r) + real (i mod r) / real r * (g ! (i div r + 1) - g ! (i div r)) \<and>
              - 1 \<le> ys ! i \<and> ys ! i \<le> 1)"
proof -
  let ?ys = "map (\<lambda>i. g ! (i div r) + real (i mod r) / real r * (g ! (i div r + 1) - g ! (i div r)))
               [0..<n]"
  have v: "valuenoise1d R key f n ''linear'' = Inr ?ys"
    by (simp add: valuenoise1d_eq [OF f k] Let_def r g)
  have cover: "n \<le> (f - 1) * r"
    unfolding r by (rule ceil_repeats [OF f])
  have lg: "length g = f"
    by (simp add: g uniform_def)
  have gr: "- 1 \<le> g ! j \<and> g ! j < 1" if "j < f" for j
    using ok that unfolding rng_ok_def g uniform_def by simp
  have gs: "\<forall>x \<in> set g. - 1 \<le> x \<and> x < 1"
    using gr by (auto simp: in_set_conv_nth lg)
  have el: "i div r + 1 < f \<and>
            ?ys ! i = g ! (i div r) + real (i mod r) / real r * (g ! (i div r + 1) - g ! (i div r)) \<and>
            - 1 \<le> ?ys ! i \<and> ?ys ! i \<le> 1" if i: "i < n" for i
  proof -
    from i cover have lt: "i < (f - 1) * r" by simp
    then have rpos: "0 < r" by (cases r) simp_all
    with lt have "i div r < f - 1"
      by (simp add: less_mult_imp_div_less)
    then have s: "i div r + 1 < f" "i div r < f" by simp_all
    have "i mod r < r" using rpos by simp
    then have t: "0 \<le> real (i mod r) / real r" "real (i mod r) / real r \<le> 1"
      using rpos by simp_all
    from gr [OF s(1)] gr [OF s(2)] t
    have "- 1 \<le> g ! (i div r) + real (i mod r) / real r * (g ! (i div r + 1) - g ! (i div r)) \<and>
          g ! (i div r) + real (i mod r) / real r * (g ! (i div r + 1) - g ! (i div r)) \<le> 1"
      by (intro interpolation_in_range) simp_all
    with s i show ?thesis by simp
  qed
  from v cover lg gs el show ?thesis
    by (intro exI [of _ ?ys]) simp
qed

lemma upt_3: "[0..<3] = [0, 1, 2]"
  by (simp add: upt_rec)

lemma valuenoise1d_example:
  "valuenoise1d test_rng 0 2 3 interpolation =
     (if interpolation = ''cubic'' then Inr [- 1 / 2, - 32 / 81, - 17 / 162]
      else Inr [- 1 / 2, - 1 / 3, - 1 / 6])"
proof -
  have k: "split test_rng 0 = (1, 2)"
    by (simp add: test_rng_def)
  have g: "uniform test_rng 1 2 (- 1) 1 = [- 1 / 2, 0]"
    by (simp add: uniform_def test_rng_def upt_rec)
  then have g': "uniform test_rng (Suc 0) 2 (- 1) 1 = [- 1 / 2, 0]"
    by simp
  show ?thesis
    by (simp add: valuenoise1d_eq [OF _ k] Let_def upt_3 g' smoothstep_def)
qed

theorem valuenoise1d_linear_witness:
  "rng_ok test_rng \<and> (2::nat) \<le> 2 \<and> (1::nat) \<le> 3 \<and> split test_rng 0 = (1, 2) \<and>
   nat \<lceil>real 3 / real (2 - 1 :: nat)\<rceil> = 3 \<and>
   uniform test_rng 1 2 (- 1) 1 = [- 1 / 2, 0] \<and>
   valuenoise1d test_rng 0 2 3 ''linear'' = Inr [- 1 / 2, - 1 / 3, - 1 / 6] \<and>
   (\<exists>ys. valuenoise1d test_rng 0 2 3 ''linear'' = Inr ys \<and> length ys = 3 \<and>
      - 1 \<le> ys ! 1 \<and> ys ! 1 \<le> 1)"
proof -
  have k: "split test_rng 0 = (1, 2)"
    by (simp add: test_rng_def)
  have g: "[- 1 / 2, 0] = uniform test_rng 1 2 (- 1) 1"
    by (simp add: uniform_def test_rng_def upt_rec)
  have r: "3 = nat \<lceil>real 3 / real (2 - 1 :: nat)\<rceil>"
    by simp
  have f: "(2::nat) \<le> 2" and n: "(1::nat) \<le> 3"
    by simp_all
  from valuenoise1d_linear [OF rng_ok_test_rng f n k r g] obtain ys where
    "valuenoise1d test_rng 0 2 3 ''linear'' = Inr ys" "length ys = 3"
    "\<forall>i < 3. - 1 \<le> ys ! i \<and> ys ! i \<le> 1"
    by blast
  then have "\<exists>ys. valuenoise1d test_rng 0 2 3 ''linear'' = Inr ys \<and> length ys = 3 \<and>
      - 1 \<le> ys ! 1 \<and> ys ! 1 \<le> 1"
    by (intro exI [of _ ys]) simp
  with rng_ok_test_rng k g [symmetric] valuenoise1d_example [of "''linear''"] show ?thesis
    by simp
qed

text \<open>
  C10. Whatever the interpolation argument is, other than the string \<open>"cubic"\<close>,
  \<open>valuenoise1d\<close> returns what it returns for \<open>"linear"\<close>; the argument is not
  validated, and for \<open>f \<ge> 2\<close> the call succeeds with \<open>n\<close> values. For \<open>"cubic"\<close> the
  fraction goes through the smoothstep.
\<close>

theorem valuenoise1d_interpolation_fallback:
  assumes nc: "interpolation \<noteq> ''cubic''"
  shows "valuenoise1d R key f n interpolation = valuenoise1d R key f n ''linear'' \<and>
         (2 \<le> f \<longrightarrow> (\<exists>ys. valuenoise1d R key f n interpolation = Inr ys \<and> length ys = n))"
proof
  show "valuenoise1d R key f n interpolation = valuenoise1d R key f n ''linear''"
    using nc by (simp add: valuenoise1d_def Let_def case_prod_beta)
  show "2 \<le> f \<longrightarrow> (\<exists>ys. valuenoise1d R key f n interpolation = Inr ys \<and> length ys = n)"
  proof
    assume f: "2 \<le> f"
    obtain ku key' where k: "split R key = (ku, key')"
      by (cases "split R key")
    show "\<exists>ys. valuenoise1d R key f n interpolation = Inr ys \<and> length ys = n"
      by (simp add: valuenoise1d_eq [OF f k])
  qed
qed

theorem valuenoise1d_interpolation_fallback_witness:
  "''cubik'' \<noteq> ''cubic'' \<and>
   valuenoise1d test_rng 0 2 3 ''cubik'' = valuenoise1d test_rng 0 2 3 ''linear'' \<and>
   valuenoise1d test_rng 0 2 3 ''cubik'' = Inr [- 1 / 2, - 1 / 3, - 1 / 6] \<and>
   valuenoise1d test_rng 0 2 3 ''cubic'' = Inr [- 1 / 2, - 32 / 81, - 17 / 162]"
proof -
  have nc: "''cubik'' \<noteq> ''cubic''"
    by simp
  from valuenoise1d_interpolation_fallback [OF nc, of test_rng 0 2 3]
  have "valuenoise1d test_rng 0 2 3 ''cubik'' = valuenoise1d test_rng 0 2 3 ''linear''"
    by blast
  with valuenoise1d_example [of "''linear''"] valuenoise1d_example [of "''cubic''"]
  show ?thesis
    by simp
qed

subsection \<open>CrossOverSexualMutator\<close>

lemma recombine_same:
  assumes "length xo_mask = length p"
  shows "recombine xo_mask p p = Inr p"
proof -
  have "map2 (+) (map2 (*) (map of_bool xo_mask) p) (map2 (*) (map (\<lambda>b. 1 - of_bool b) xo_mask) p) = p"
    using assms by (intro nth_equalityI) (simp_all add: algebra_simps)
  with assms show ?thesis
    by (simp add: recombine_def broadcast2_def)
qed

text \<open>
  C6. With identical parents, for every key and every vector \<open>p\<close> (and a frequency
  count of at least 2, as the noise generator requires), the crossover mask has the
  length of \<open>p\<close>, the recombined vector is \<open>p\<close> itself, and the offspring is what the
  wrapped mutator's \<open>mutate\<close> returns on \<open>p\<close> with the sub-key of the second split.
\<close>

theorem crossover_mutate_identical_parents:
  assumes f: "2 \<le> n_frequencies m"
    and k1: "split R key = (ku, key1)" and k2: "split R key1 = (ku2, key2)"
  shows "\<exists>noise. valuenoise1d R ku (n_frequencies m) (length p) ''linear'' = Inr noise \<and>
           length noise = length p \<and>
           recombine (map (\<lambda>v. 0 < v) noise) p p = Inr p \<and>
           crossover_mutate F m R key p p = mutator_mutate F (mutator m) R ku2 p"
proof -
  obtain kv key' where kv: "split R ku = (kv, key')"
    by (cases "split R ku")
  from valuenoise1d_eq [OF f kv, of "length p" "''linear''"] obtain noise where
    v: "valuenoise1d R ku (n_frequencies m) (length p) ''linear'' = Inr noise"
    and l: "length noise = length p"
    by simp
  have r: "recombine (map (\<lambda>v. 0 < v) noise) p p = Inr p"
    by (rule recombine_same) (simp add: l)
  have "crossover_mutate F m R key p p = mutator_mutate F (mutator m) R ku2 p"
    by (simp add: crossover_mutate_def k1 k2 v r)
  with v l r show ?thesis by blast
qed

lemma mutate_example_offspring:
  "mutate float32 (adaptive_mutator_init (1 / 10) None) test_rng 5 [5, 1 / 10]
     = Inr [Fin (51 / 10), Fin (11 / 100)]"
proof -
  have d: "mutation_deltas float32 (adaptive_mutator_init (1 / 10) None) test_rng 5 [1 / 10]
             = ([Fin (1 / 10)], [Fin (1 / 100)])"
    by (simp add: mutation_deltas_def test_rng_def adaptive_mutator_init_def
        truncated_normal_def uniform_def Let_def fl_def fmax_float32 ftiny_float32)
  show ?thesis
    by (subst mutate_def, subst split_params_example)
      (simp add: vec_def Let_def d [unfolded adaptive_mutator_init_def] join_params_def
        adaptive_mutator_init_def fl_def fmax_float32 ftiny_float32)
qed

theorem crossover_mutate_identical_parents_witness:
  "(2::nat) \<le> 16 \<and> split test_rng 0 = (1, 2) \<and> split test_rng 2 = (5, 6) \<and>
   crossover_mutate float32
     \<lparr>mutator = RandomlyAdaptiveMutator (adaptive_mutator_init (1 / 10) None), n_frequencies = 16\<rparr>
     test_rng 0 [5, 1 / 10] [5, 1 / 10] = Inr [Fin (51 / 10), Fin (11 / 100)]"
proof -
  let ?m = "\<lparr>mutator = RandomlyAdaptiveMutator (adaptive_mutator_init (1 / 10) None),
             n_frequencies = 16\<rparr>"
  have f: "2 \<le> n_frequencies ?m"
    by simp
  have k: "split test_rng 0 = (1, 2)" "split test_rng 2 = (5, 6)"
    by (simp_all add: test_rng_def)
  from crossover_mutate_identical_parents [OF f k, of "[5, 1 / 10]" float32]
  have "crossover_mutate float32 ?m test_rng 0 [5, 1 / 10] [5, 1 / 10] =
          mutator_mutate float32 (mutator ?m) test_rng 5 [5, 1 / 10]"
    by blast
  with k mutate_example_offspring show ?thesis
    by simp
qed

end
